theory Spec2Isabelle
  imports
    Main
    "HOL-Library.Word"
    "HOL-Library.Multiset"
    "HOL-Library.Sublist"
    "HOL-Library.Product_Lexorder"
begin

section \<open>The canonical Huffman encoder of src/encoder.cpp\<close>

subsection \<open>Data model\<close>

text \<open>
  A C++ \<open>char\<close> is an 8-bit value; comparisons between \<open>char\<close>s are comparisons of
  their signed values (\<open>sint\<close>), as on the x86-64 ABI where \<open>char\<close> is signed.
  \<open>uint32_t\<close> is a 32-bit word whose addition wraps around. A \<open>std::string\<close> of code
  bits is a \<open>string\<close> over the characters \<open>0\<close> and \<open>1\<close>.
\<close>

type_synonym byte = "8 word"
type_synonym u32 = "32 word"

text \<open>
  The constants of encoder.hpp. The header is not part of the sources at hand, so its
  constants are parameters of every function that refers to them.
  \<open>SUPPORTED_CHARACTERS\<close> is only ever compared with a \<open>char\<close>, after the usual
  promotion to an integer.
\<close>

record config =
  FIRST_CHARACTER :: byte
  SUPPORTED_CHARACTERS :: int
  NEW_LINE :: byte
  END_OF_TEXT :: byte
  MAX_BITS :: nat

text \<open>
  What can go wrong: \<open>std::invalid_argument\<close> thrown by \<open>extract_frequencies\<close>
  (carrying the offending character), \<open>std::out_of_range\<close> thrown by \<open>substr\<close>,
  behaviour the C++ standard leaves undefined (an out-of-bounds subscript, \<open>front\<close> of an
  empty vector, the conversion of minus infinity to an unsigned integer), and
  \<open>std::stoi\<close> applied to a buffer that holds a character other than \<open>0\<close> and \<open>1\<close>,
  whose result this model does not describe.
\<close>

datatype error =
    UnsupportedCharacter byte
  | OutOfRange
  | UndefinedBehaviour
  | NonBinaryBuffer

text \<open>
  Modelled from the spec: \<open>struct Node\<close> is declared in encoder.hpp. The code reads and
  writes the members \<open>symbol\<close>, \<open>frequency\<close>, \<open>left\<close> and \<open>right\<close>, builds leaves as
  \<open>Node{symbol, frequency}\<close> (both children null) and tests the children for null; a
  default-constructed node has symbol \<open>\0\<close>. Children are owned and never shared, so a
  null-able pointer to a child is an optional subtree.
\<close>

datatype Node =
  Node (symbol: byte) (frequency: u32) (left: "Node option") (right: "Node option")

subsection \<open>\<open>extract_frequencies\<close>\<close>

text \<open>
  \<open>std::getline\<close> until it fails: the content is cut at every \<open>\n\<close> (byte 10), the
  delimiter is dropped, and a last line without delimiter is still delivered when it is
  not empty.
\<close>

fun read_lines :: "byte list \<Rightarrow> byte list \<Rightarrow> byte list list" where
  "read_lines [] line = (if line = [] then [] else [line])"
| "read_lines (c # cs) line =
     (if c = 10 then line # read_lines cs [] else read_lines cs (line @ [c]))"

definition getlines :: "byte list \<Rightarrow> byte list list" where
  "getlines input = read_lines input []"

text \<open>\<open>frequencies[character]++\<close>: a missing key is first inserted with count 0.\<close>

definition increment :: "(byte \<rightharpoonup> u32) \<Rightarrow> byte \<Rightarrow> (byte \<rightharpoonup> u32)" where
  "increment frequencies character =
     frequencies(character \<mapsto> (case frequencies character of None \<Rightarrow> 0 | Some n \<Rightarrow> n) + 1)"

fun count_characters ::
  "config \<Rightarrow> byte list \<Rightarrow> (byte \<rightharpoonup> u32) \<Rightarrow> error + (byte \<rightharpoonup> u32)" where
  "count_characters K [] frequencies = Inr frequencies"
| "count_characters K (character # rest) frequencies =
     (if sint character < sint (FIRST_CHARACTER K) then Inl (UnsupportedCharacter character)
      else count_characters K rest (increment frequencies character))"

fun count_lines ::
  "config \<Rightarrow> byte list list \<Rightarrow> (byte \<rightharpoonup> u32) \<Rightarrow> error + (byte \<rightharpoonup> u32)" where
  "count_lines K [] frequencies = Inr frequencies"
| "count_lines K (line # rest) frequencies =
     (case count_characters K (line @ [NEW_LINE K]) frequencies of
        Inl e \<Rightarrow> Inl e
      | Inr frequencies' \<Rightarrow> count_lines K rest frequencies')"

text \<open>
  The table starts empty: the constructor argument \<open>SUPPORTED_CHARACTERS\<close> of the
  \<open>unordered_map\<close> is a bucket count, not a number of entries.
\<close>

definition extract_frequencies :: "config \<Rightarrow> byte list \<Rightarrow> error + (byte \<rightharpoonup> u32)" where
  "extract_frequencies K input =
     (case count_lines K (getlines input) Map.empty of
        Inl e \<Rightarrow> Inl e
      | Inr frequencies \<Rightarrow> Inr (increment frequencies (END_OF_TEXT K)))"

subsection \<open>\<open>build_huffman_tree\<close>\<close>

definition all_bytes :: "byte list" where
  "all_bytes = map of_nat [0..<256]"

text \<open>
  One leaf per entry of the table. The iteration order of an \<open>unordered_map\<close> is
  unspecified; the entries are listed here by ascending key, and the queue below hands
  out any of its minima, so that no order of insertion is left out.
\<close>

definition entries :: "(byte \<rightharpoonup> 'v) \<Rightarrow> (byte \<times> 'v) list" where
  "entries table =
     concat (map (\<lambda>s. case table s of None \<Rightarrow> [] | Some v \<Rightarrow> [(s, v)]) all_bytes)"

definition leaf_nodes :: "(byte \<rightharpoonup> u32) \<Rightarrow> Node list" where
  "leaf_nodes frequencies = map (\<lambda>(s, f). Node s f None None) (entries frequencies)"

text \<open>
  Modelled from the spec: \<open>min_priority_queue\<close> and the ordering of nodes are declared in
  encoder.hpp. It is "a min-priority queue ordered by cumulative weight", ties broken
  "by insertion/extraction order of the underlying priority structure, not by symbol
  identity": \<open>top\<close> is some node no other node of the queue is lighter than.
\<close>

definition is_top :: "Node list \<Rightarrow> Node \<Rightarrow> bool" where
  "is_top nodes n = (n \<in> set nodes \<and> list_all (\<lambda>m. frequency n \<le> frequency m) nodes)"

definition parent_of :: "Node \<Rightarrow> Node \<Rightarrow> Node" where
  "parent_of first second =
     Node 0 (frequency first + frequency second) (Some first) (Some second)"

inductive huffman_loop :: "Node list \<Rightarrow> Node \<Rightarrow> bool" where
  finished: "huffman_loop [root] root"
| merge: "1 < length nodes \<Longrightarrow> is_top nodes first \<Longrightarrow>
          is_top (remove1 first nodes) second \<Longrightarrow>
          huffman_loop (parent_of first second # remove1 second (remove1 first nodes)) root \<Longrightarrow>
          huffman_loop nodes root"

definition build_huffman_tree :: "(byte \<rightharpoonup> u32) \<Rightarrow> Node \<Rightarrow> bool" where
  "build_huffman_tree frequencies root = huffman_loop (leaf_nodes frequencies) root"

subsection \<open>\<open>generate_huffman_codes\<close>\<close>

function traverse ::
  "(Node \<times> string) list \<Rightarrow> (byte \<times> string) list \<Rightarrow> (byte \<times> string) list" where
  "traverse [] huffman_codes = huffman_codes"
| "traverse ((current, code) # nodes) huffman_codes =
     (let nodes1 = (case left current of
                      Some l \<Rightarrow> (l, code @ ''0'') # nodes | None \<Rightarrow> nodes);
          nodes2 = (case right current of
                      Some r \<Rightarrow> (r, code @ ''1'') # nodes1 | None \<Rightarrow> nodes1)
      in traverse nodes2
           (if symbol current \<noteq> 0 then huffman_codes @ [(symbol current, code)]
            else huffman_codes))"
  by pat_completeness auto
termination
proof (relation "measure (\<lambda>(nodes, _). sum_list (map (\<lambda>(n, _). size n) nodes))")
  show "wf (measure (\<lambda>(nodes, _). sum_list (map (\<lambda>(n, _). size n) nodes)))"
    by simp
next
  fix current :: Node and code :: string and nodes huffman_codes nodes1 nodes2
  assume "nodes1 = (case left current of
                      Some l \<Rightarrow> (l, code @ ''0'') # nodes | None \<Rightarrow> nodes)"
    and "nodes2 = (case right current of
                      Some r \<Rightarrow> (r, code @ ''1'') # nodes1 | None \<Rightarrow> nodes1)"
  then show "((nodes2,
               if symbol current \<noteq> 0 then huffman_codes @ [(symbol current, code)]
               else huffman_codes),
              (current, code) # nodes, huffman_codes)
             \<in> measure (\<lambda>(nodes, _). sum_list (map (\<lambda>(n, _). size n) nodes))"
    by (cases current) (auto split: option.splits)
qed

declare traverse.simps [simp del]

text \<open>
  The comparison handed to \<open>std::sort\<close>. On a list whose (length, symbol) pairs are
  pairwise different, as the codes of a tree with distinct leaf symbols are, every
  sorting algorithm returns the same list; the sort is written as an insertion sort
  on the key the comparison orders by.
\<close>

definition code_less :: "byte \<times> string \<Rightarrow> byte \<times> string \<Rightarrow> bool" where
  "code_less l r =
     (if length (snd l) = length (snd r) then sint (fst l) < sint (fst r)
      else length (snd l) < length (snd r))"

definition code_key :: "byte \<times> string \<Rightarrow> nat \<times> int" where
  "code_key e = (length (snd e), sint (fst e))"

definition generate_huffman_codes :: "Node \<Rightarrow> (byte \<times> string) list" where
  "generate_huffman_codes root = sort_key code_key (traverse [(root, [])] [])"

subsection \<open>\<open>next_binary\<close> and \<open>generate_canonical_codes\<close>\<close>

definition flip :: "char \<Rightarrow> char" where
  "flip b = (if b = CHR ''0'' then CHR ''1'' else CHR ''0'')"

text \<open>
  The loop of \<open>next_binary\<close> on its three variables. \<open>number[number.size() - index]\<close>
  with \<open>index\<close> beyond the size of the string is an out-of-bounds subscript.
\<close>

function next_binary_loop :: "string \<Rightarrow> nat \<Rightarrow> nat \<Rightarrow> error + string" where
  "next_binary_loop number carry index =
     (if index \<le> 1 + carry then
        if carry \<noteq> 0 \<and> length number < index then
          next_binary_loop (CHR ''1'' # number) (carry - 1) (index + 1)
        else if length number < index \<or> index = 0 then Inl UndefinedBehaviour
        else
          let last_bit = number ! (length number - index);
              carry' = (if last_bit = CHR ''1'' then carry + 1 else carry)
          in next_binary_loop (number[length number - index := flip last_bit]) carry' (index + 1)
      else Inr number)"
  by pat_completeness auto
termination
  by (relation "measure (\<lambda>(number, carry, index). 2 * (length number + 1 - index) + carry)")
     auto

declare next_binary_loop.simps [simp del]

definition next_binary :: "string \<Rightarrow> error + string" where
  "next_binary number = next_binary_loop number 0 1"

text \<open>\<open>while(current_code.size() < size) current_code += '0'\<close>\<close>

definition pad :: "string \<Rightarrow> nat \<Rightarrow> string" where
  "pad current_code n = current_code @ replicate (n - length current_code) CHR ''0''"

fun assign_codes ::
  "(byte \<times> string) list \<Rightarrow> string \<Rightarrow> (byte \<rightharpoonup> string) \<Rightarrow> error + (byte \<rightharpoonup> string)" where
  "assign_codes [] last_code canonical_codes = Inr canonical_codes"
| "assign_codes (current_element # rest) last_code canonical_codes =
     (case next_binary last_code of
        Inl e \<Rightarrow> Inl e
      | Inr incremented \<Rightarrow>
          let current_code = pad incremented (length (snd current_element))
          in assign_codes rest current_code
               (canonical_codes(fst current_element \<mapsto> current_code)))"

text \<open>
  The first loop appends one \<open>0\<close> per character of the front code to the (inserted)
  entry of the front symbol; reading \<open>canonical_codes[front_element.first]\<close> afterwards
  inserts the empty code when that loop did not run.
\<close>

definition generate_canonical_codes ::
  "(byte \<times> string) list \<Rightarrow> error + (byte \<rightharpoonup> string)" where
  "generate_canonical_codes huffman_codes =
     (case huffman_codes of
        [] \<Rightarrow> Inl UndefinedBehaviour
      | front_element # rest \<Rightarrow>
          let last_code = replicate (length (snd front_element)) CHR ''0''
          in assign_codes rest last_code [fst front_element \<mapsto> last_code])"

subsection \<open>Bit packing\<close>

definition binary_value :: "string \<Rightarrow> nat" where
  "binary_value buffer = foldl (\<lambda>v c. 2 * v + (if c = CHR ''1'' then 1 else 0)) 0 buffer"

definition is_bit :: "char \<Rightarrow> bool" where
  "is_bit c = (c = CHR ''0'' \<or> c = CHR ''1'')"

text \<open>\<open>std::stoi(buffer, nullptr, 2)\<close> on a string of binary digits.\<close>

definition stoi2 :: "string \<Rightarrow> error + nat" where
  "stoi2 buffer =
     (if buffer \<noteq> [] \<and> list_all is_bit buffer then Inr (binary_value buffer)
      else Inl NonBinaryBuffer)"

text \<open>
  The body shared by the three packing loops, on the pair of \<open>output\<close> and \<open>buffer\<close>:
  append the bit, and once the buffer holds a multiple of 8 bits, push its value as a
  byte and clear it.
\<close>

definition put_bit :: "char \<Rightarrow> byte list \<times> string \<Rightarrow> error + (byte list \<times> string)" where
  "put_bit b st =
     (let output = fst st; buffer = snd st @ [b]
      in if length buffer mod 8 \<noteq> 0 then Inr (output, buffer)
         else case stoi2 buffer of
                Inl e \<Rightarrow> Inl e
              | Inr v \<Rightarrow> Inr (output @ [of_nat v], []))"

fun put_bits :: "string \<Rightarrow> byte list \<times> string \<Rightarrow> error + (byte list \<times> string)" where
  "put_bits [] st = Inr st"
| "put_bits (b # bs) st =
     (case put_bit b st of Inl e \<Rightarrow> Inl e | Inr st' \<Rightarrow> put_bits bs st')"

text \<open>The final partial byte, padded with \<open>0\<close> bits.\<close>

definition flush :: "byte list \<times> string \<Rightarrow> error + byte list" where
  "flush st =
     (if length (snd st) mod 8 \<noteq> 0 then
        case stoi2 (snd st @ replicate (8 - length (snd st) mod 8) CHR ''0'') of
          Inl e \<Rightarrow> Inl e
        | Inr v \<Rightarrow> Inr (fst st @ [of_nat v])
      else Inr (fst st))"

subsection \<open>\<open>encode_codes_length\<close>\<close>

text \<open>
  The largest code length of the table. The loop keeps the maximum, which does not
  depend on the order in which the \<open>unordered_map\<close> is iterated.
\<close>

definition largest_code_length :: "(byte \<rightharpoonup> string) \<Rightarrow> nat" where
  "largest_code_length code_table =
     fold (\<lambda>(s, code) largest. if length code < largest then largest else length code)
       (entries code_table) 0"

text \<open>
  \<open>std::log2(n) + 1\<close> converted to \<open>uint32_t\<close> truncates; for \<open>n \<ge> 1\<close> that is
  the integer logarithm plus one. For \<open>n = 0\<close> the logarithm is minus infinity, whose
  conversion to an unsigned integer is undefined.
\<close>

fun floor_log2 :: "nat \<Rightarrow> nat" where
  "floor_log2 n = (if n < 2 then 0 else Suc (floor_log2 (n div 2)))"

declare floor_log2.simps [simp del]

text \<open>\<open>std::bitset<N>(v).to_string()\<close>: the low \<open>N\<close> bits of \<open>v\<close>, most significant first.\<close>

fun bitset_to_string :: "nat \<Rightarrow> nat \<Rightarrow> string" where
  "bitset_to_string 0 v = []"
| "bitset_to_string (Suc n) v =
     bitset_to_string n (v div 2) @ [if odd v then CHR ''1'' else CHR ''0'']"

text \<open>
  \<open>to_string().substr(MAX_BITS - bit_count)\<close>: when \<open>bit_count\<close> exceeds \<open>MAX_BITS\<close>
  the unsigned difference wraps to a position beyond the string and \<open>substr\<close> throws.
\<close>

definition length_field :: "config \<Rightarrow> nat \<Rightarrow> nat \<Rightarrow> error + string" where
  "length_field K bit_count code_length =
     (if MAX_BITS K < bit_count then Inl OutOfRange
      else Inr (drop (MAX_BITS K - bit_count) (bitset_to_string (MAX_BITS K) code_length)))"

text \<open>
  The loop over \<open>character\<close>, a \<open>char\<close> that is incremented until it is no longer
  below \<open>SUPPORTED_CHARACTERS\<close>; it wraps from 127 to -128, so the loop need not end.
  \<open>code_table[character]\<close> inserts the empty code for a missing symbol, before
  \<open>substr\<close> can throw. The table is the caller's, passed by reference: the loop gives
  back the table as it leaves it, also when an exception ends it.
\<close>

partial_function (option) header_loop ::
  "config \<Rightarrow> nat \<Rightarrow> byte \<Rightarrow> (byte \<rightharpoonup> string) \<Rightarrow> byte list \<times> string \<Rightarrow>
   ((error + byte list \<times> string) \<times> (byte \<rightharpoonup> string)) option" where
  "header_loop K bit_count character code_table st =
     (if sint character < SUPPORTED_CHARACTERS K then
        let code = (case code_table character of None \<Rightarrow> [] | Some c \<Rightarrow> c);
            code_table' = code_table(character \<mapsto> code)
        in case length_field K bit_count (length code) of
             Inl e \<Rightarrow> Some (Inl e, code_table')
           | Inr binary \<Rightarrow>
               (case put_bits binary st of
                  Inl e \<Rightarrow> Some (Inl e, code_table')
                | Inr st' \<Rightarrow> header_loop K bit_count (character + 1) code_table' st')
      else Some (Inr st, code_table))"

declare header_loop.simps [code]

text \<open>
  The result is what the call delivers, the output or the exception that ends it,
  together with the code table as the call leaves it; \<open>None\<close> stands for a call that
  does not return.
\<close>

definition encode_codes_length ::
  "config \<Rightarrow> (byte \<rightharpoonup> string) \<Rightarrow> ((error + byte list) \<times> (byte \<rightharpoonup> string)) option" where
  "encode_codes_length K code_table =
     (let largest = largest_code_length code_table
      in if largest = 0 then Some (Inl UndefinedBehaviour, code_table)
         else
           let bit_count = floor_log2 largest + 1
           in case header_loop K bit_count (FIRST_CHARACTER K) code_table
                     ([of_nat bit_count], []) of
                None \<Rightarrow> None
              | Some (Inl e, code_table') \<Rightarrow> Some (Inl e, code_table')
              | Some (Inr st, code_table') \<Rightarrow>
                  (case flush st of
                     Inl e \<Rightarrow> Some (Inl e, code_table')
                   | Inr output \<Rightarrow> Some (Inr output, code_table')))"

subsection \<open>\<open>encode_content\<close>\<close>

text \<open>
  \<open>code_table[character]\<close> reads the empty code for a symbol without entry (and inserts
  it, which no later read can tell from its absence).
\<close>

definition code_of :: "(byte \<rightharpoonup> string) \<Rightarrow> byte \<Rightarrow> string" where
  "code_of code_table character = (case code_table character of None \<Rightarrow> [] | Some c \<Rightarrow> c)"

fun encode_characters ::
  "(byte \<rightharpoonup> string) \<Rightarrow> byte list \<Rightarrow> byte list \<times> string \<Rightarrow> error + (byte list \<times> string)" where
  "encode_characters code_table [] st = Inr st"
| "encode_characters code_table (character # rest) st =
     (case put_bits (code_of code_table character) st of
        Inl e \<Rightarrow> Inl e
      | Inr st' \<Rightarrow> encode_characters code_table rest st')"

fun encode_lines ::
  "config \<Rightarrow> (byte \<rightharpoonup> string) \<Rightarrow> byte list list \<Rightarrow> byte list \<times> string \<Rightarrow>
   error + (byte list \<times> string)" where
  "encode_lines K code_table [] st = Inr st"
| "encode_lines K code_table (line # rest) st =
     (case encode_characters code_table (line @ [NEW_LINE K]) st of
        Inl e \<Rightarrow> Inl e
      | Inr st' \<Rightarrow> encode_lines K code_table rest st')"

definition encode_content :: "config \<Rightarrow> byte list \<Rightarrow> (byte \<rightharpoonup> string) \<Rightarrow> error + byte list" where
  "encode_content K file code_table =
     (case encode_lines K code_table (getlines file) ([], []) of
        Inl e \<Rightarrow> Inl e
      | Inr st \<Rightarrow>
          (case put_bits (code_of code_table (END_OF_TEXT K)) st of
             Inl e \<Rightarrow> Inl e
           | Inr st' \<Rightarrow> flush st'))"

subsection \<open>\<open>create_compressed_file\<close>\<close>

text \<open>Everything after the tree is built, on the content of the input file.\<close>

definition encode_with_tree :: "config \<Rightarrow> byte list \<Rightarrow> Node \<Rightarrow> (error + byte list) option" where
  "encode_with_tree K file tree =
     (case generate_canonical_codes (generate_huffman_codes tree) of
        Inl e \<Rightarrow> Some (Inl e)
      | Inr canonical_codes \<Rightarrow>
          (case encode_codes_length K canonical_codes of
             None \<Rightarrow> None
           | Some (Inl e, canonical_codes') \<Rightarrow> Some (Inl e)
           | Some (Inr encoded_codes, canonical_codes') \<Rightarrow>
               (case encode_content K file canonical_codes' of
                  Inl e \<Rightarrow> Some (Inl e)
                | Inr encoded_content \<Rightarrow> Some (Inr (encoded_codes @ encoded_content)))))"

text \<open>
  The file system maps a path to the content of the file there. The output stream is
  opened first, which creates the file \<open>file_path.hf\<close> empty; an input file that cannot
  be opened delivers no line. The outcome is the file system left behind and the
  exception that ended the call, if any. The bytes are put into the output file only
  after both segments are complete.
\<close>

type_synonym filesystem = "string \<rightharpoonup> byte list"

definition read_file :: "filesystem \<Rightarrow> string \<Rightarrow> byte list" where
  "read_file fs file_path = (case fs file_path of None \<Rightarrow> [] | Some content \<Rightarrow> content)"

inductive create_compressed_file ::
  "config \<Rightarrow> filesystem \<Rightarrow> string \<Rightarrow> filesystem \<times> error option \<Rightarrow> bool" where
  rejected:
    "fs1 = fs(file_path @ ''.hf'' \<mapsto> []) \<Longrightarrow>
     extract_frequencies K (read_file fs1 file_path) = Inl e \<Longrightarrow>
     create_compressed_file K fs file_path (fs1, Some e)"
| failed:
    "fs1 = fs(file_path @ ''.hf'' \<mapsto> []) \<Longrightarrow>
     extract_frequencies K (read_file fs1 file_path) = Inr frequencies \<Longrightarrow>
     build_huffman_tree frequencies tree \<Longrightarrow>
     encode_with_tree K (read_file fs1 file_path) tree = Some (Inl e) \<Longrightarrow>
     create_compressed_file K fs file_path (fs1, Some e)"
| written:
    "fs1 = fs(file_path @ ''.hf'' \<mapsto> []) \<Longrightarrow>
     extract_frequencies K (read_file fs1 file_path) = Inr frequencies \<Longrightarrow>
     build_huffman_tree frequencies tree \<Longrightarrow>
     encode_with_tree K (read_file fs1 file_path) tree = Some (Inr bytes) \<Longrightarrow>
     create_compressed_file K fs file_path (fs1(file_path @ ''.hf'' \<mapsto> bytes), None)"

section \<open>Notions the properties are stated with\<close>

text \<open>
  The symbols the two passes over the input see: every line read, followed by one
  \<open>NEW_LINE\<close>.
\<close>

definition symbols_read :: "config \<Rightarrow> byte list \<Rightarrow> byte list" where
  "symbols_read K input = concat (map (\<lambda>line. line @ [NEW_LINE K]) (getlines input))"

text \<open>The test of \<open>extract_frequencies\<close>: the character is not below \<open>FIRST_CHARACTER\<close>.\<close>

definition not_below_first :: "config \<Rightarrow> byte \<Rightarrow> bool" where
  "not_below_first K c = (sint (FIRST_CHARACTER K) \<le> sint c)"

text \<open>The alphabet the header covers: from \<open>FIRST_CHARACTER\<close> up to, not including, \<open>SUPPORTED_CHARACTERS\<close>.\<close>

definition in_alphabet :: "config \<Rightarrow> byte \<Rightarrow> bool" where
  "in_alphabet K c = (sint (FIRST_CHARACTER K) \<le> sint c \<and> sint c < SUPPORTED_CHARACTERS K)"

text \<open>
  How often a symbol is counted: its occurrences among the symbols read, and once more
  for \<open>END_OF_TEXT\<close>.
\<close>

definition occurrences :: "config \<Rightarrow> byte list \<Rightarrow> byte \<Rightarrow> nat" where
  "occurrences K input s =
     count_list (symbols_read K input) s + (if s = END_OF_TEXT K then 1 else 0)"

definition counted_table :: "config \<Rightarrow> byte list \<Rightarrow> (byte \<rightharpoonup> u32)" where
  "counted_table K input =
     (\<lambda>s. if occurrences K input s = 0 then None else Some (of_nat (occurrences K input s)))"

text \<open>The exception \<open>extract_frequencies\<close> throws, whatever character it carries.\<close>

definition is_unsupported :: "error \<Rightarrow> bool" where
  "is_unsupported e = (case e of UnsupportedCharacter c \<Rightarrow> True | _ \<Rightarrow> False)"

text \<open>The eight bits of a byte, most significant first, and the bits of a byte sequence.\<close>

definition bits_of_byte :: "byte \<Rightarrow> string" where
  "bits_of_byte b = bitset_to_string 8 (unat b)"

definition unpack :: "byte list \<Rightarrow> string" where
  "unpack bytes = concat (map bits_of_byte bytes)"



text \<open>
  The symbols of the alphabet in increasing order, as the loop of \<open>encode_codes_length\<close>
  visits them when it ends.
\<close>

fun consecutive :: "byte \<Rightarrow> nat \<Rightarrow> byte list" where
  "consecutive c 0 = []"
| "consecutive c (Suc n) = c # consecutive (c + 1) n"

definition alphabet :: "config \<Rightarrow> byte list" where
  "alphabet K =
     consecutive (FIRST_CHARACTER K)
       (nat (SUPPORTED_CHARACTERS K - sint (FIRST_CHARACTER K)))"


text \<open>
  A set of values for the constants of encoder.hpp, used where a property is evaluated
  on a concrete input: the alphabet runs from the tabulator to the tilde, the
  end-of-text symbol is the control character 26.
\<close>

definition example_config :: config where
  "example_config =
     \<lparr>FIRST_CHARACTER = 9, SUPPORTED_CHARACTERS = 127, NEW_LINE = 10, END_OF_TEXT = 26,
      MAX_BITS = 8\<rparr>"



text \<open>
  The successor of a bit string read as an unsigned binary number, in the words of the
  specification: the carry runs from the least significant bit towards the most
  significant one, and a carry that passes the most significant bit makes the string
  grow by a leading \<open>1\<close>. The function works on the bits in reverse, least significant
  first.
\<close>

fun increment_reversed :: "string \<Rightarrow> string" where
  "increment_reversed [] = ''1''"
| "increment_reversed (b # bs) =
     (if b = CHR ''1'' then CHR ''0'' # increment_reversed bs else CHR ''1'' # bs)"

definition successor :: "string \<Rightarrow> string" where
  "successor number = rev (increment_reversed (rev number))"

text \<open>
  The assignment of canonical codes in the words of the specification: the first symbol
  receives the all-zero code of its length, every further symbol the successor of the
  code before it, with as many \<open>0\<close> bits appended on the right as it is shorter than
  the raw code of the symbol.
\<close>

fun canonical_after :: "string \<Rightarrow> (byte \<times> string) list \<Rightarrow> (byte \<times> string) list" where
  "canonical_after previous [] = []"
| "canonical_after previous (e # rest) =
     (let code = successor previous
                   @ replicate (length (snd e) - length (successor previous)) CHR ''0''
      in (fst e, code) # canonical_after code rest)"

definition canonical_assignment :: "(byte \<times> string) list \<Rightarrow> (byte \<times> string) list" where
  "canonical_assignment huffman_codes =
     (case huffman_codes of
        [] \<Rightarrow> []
      | e # rest \<Rightarrow>
          (fst e, replicate (length (snd e)) CHR ''0'')
            # canonical_after (replicate (length (snd e)) CHR ''0'') rest)"

text \<open>
  No successor is longer than the raw code of the symbol it is assigned to, so that it
  can be brought to the length of that raw code by appending \<open>0\<close> bits.
\<close>

fun successors_fit :: "string \<Rightarrow> (byte \<times> string) list \<Rightarrow> bool" where
  "successors_fit previous [] = True"
| "successors_fit previous (e # rest) =
     (length (successor previous) \<le> length (snd e)
      \<and> successors_fit
            (successor previous
               @ replicate (length (snd e) - length (successor previous)) CHR ''0'')
            rest)"

definition codes_fit :: "(byte \<times> string) list \<Rightarrow> bool" where
  "codes_fit huffman_codes =
     (case huffman_codes of
        [] \<Rightarrow> True
      | e # rest \<Rightarrow> successors_fit (replicate (length (snd e)) CHR ''0'') rest)"

text \<open>
  The trees \<open>build_huffman_tree\<close> builds: a leaf has no child; an inner node has two
  children, both such trees, and the symbol \<open>\0\<close> of a default-constructed node.
\<close>

fun huffman_tree :: "Node \<Rightarrow> bool" where
  "huffman_tree (Node s f l r) =
     (case (l, r) of
        (None, None) \<Rightarrow> True
      | (Some a, Some b) \<Rightarrow> s = 0 \<and> huffman_tree a \<and> huffman_tree b
      | _ \<Rightarrow> False)"

text \<open>
  The leaves of a tree from left to right, each with the path that leads to it from the
  root: \<open>0\<close> for an edge to a left child, \<open>1\<close> for an edge to a right child.
\<close>

fun leaf_codes :: "Node \<Rightarrow> (byte \<times> string) list" where
  "leaf_codes (Node s f l r) =
     (if l = None \<and> r = None then [(s, [])]
      else (case l of None \<Rightarrow> []
            | Some a \<Rightarrow> map (\<lambda>e. (fst e, CHR ''0'' # snd e)) (leaf_codes a))
         @ (case r of None \<Rightarrow> []
            | Some b \<Rightarrow> map (\<lambda>e. (fst e, CHR ''1'' # snd e)) (leaf_codes b)))"

text \<open>A strict binary tree: every node has no child or two.\<close>

fun strict_binary :: "Node \<Rightarrow> bool" where
  "strict_binary (Node s f l r) =
     (case (l, r) of
        (None, None) \<Rightarrow> True
      | (Some a, Some b) \<Rightarrow> strict_binary a \<and> strict_binary b
      | _ \<Rightarrow> False)"

text \<open>The weight of every inner node is the (32-bit) sum of the weights of its children.\<close>

fun sums_ok :: "Node \<Rightarrow> bool" where
  "sums_ok (Node s f l r) =
     (case (l, r) of
        (Some a, Some b) \<Rightarrow> f = frequency a + frequency b \<and> sums_ok a \<and> sums_ok b
      | _ \<Rightarrow> True)"

text \<open>The leaves of a tree from left to right with their weights.\<close>

fun leaves :: "Node \<Rightarrow> (byte \<times> u32) list" where
  "leaves (Node s f l r) =
     (if l = None \<and> r = None then [(s, f)]
      else (case l of None \<Rightarrow> [] | Some a \<Rightarrow> leaves a)
         @ (case r of None \<Rightarrow> [] | Some b \<Rightarrow> leaves b))"

text \<open>
  For every leaf of a tree whose root is at depth \<open>d\<close>, the pair of the weight of the
  leaf (as a number) and its depth. The weighted external path length of a tree is the
  sum over its leaves of weight times depth.
\<close>

fun depths :: "nat \<Rightarrow> Node \<Rightarrow> (nat \<times> nat) multiset" where
  "depths d (Node s f l r) =
     (if l = None \<and> r = None then {#(unat f, d)#}
      else (case l of None \<Rightarrow> {#} | Some a \<Rightarrow> depths (Suc d) a)
         + (case r of None \<Rightarrow> {#} | Some b \<Rightarrow> depths (Suc d) b))"

definition cost :: "(nat \<times> nat) multiset \<Rightarrow> nat" where
  "cost P = (\<Sum>p \<in># P. fst p * snd p)"

definition weighted_path_length :: "Node \<Rightarrow> nat" where
  "weighted_path_length tree = cost (depths 0 tree)"

text \<open>The sum of the weights of the leaves of a tree, and the height of a tree.\<close>

fun leafsum :: "Node \<Rightarrow> nat" where
  "leafsum (Node s f l r) =
     (if l = None \<and> r = None then unat f
      else (case l of None \<Rightarrow> 0 | Some a \<Rightarrow> leafsum a)
         + (case r of None \<Rightarrow> 0 | Some b \<Rightarrow> leafsum b))"

fun height :: "Node \<Rightarrow> nat" where
  "height (Node s f l r) =
     (if l = None \<and> r = None then 0
      else Suc (max (case l of None \<Rightarrow> 0 | Some a \<Rightarrow> height a)
                    (case r of None \<Rightarrow> 0 | Some b \<Rightarrow> height b)))"

text \<open>
  Kraft's equality for a multiset of depths, scaled by a power of two that no depth
  exceeds: the leaves of a strict binary tree satisfy it.
\<close>

definition ksum :: "nat \<Rightarrow> nat multiset \<Rightarrow> nat" where
  "ksum H D = (\<Sum>d \<in># D. 2 ^ (H - d))"

definition kraft :: "nat multiset \<Rightarrow> bool" where
  "kraft D = (\<exists>H. (\<forall>d \<in># D. d \<le> H) \<and> ksum H D = 2 ^ H)"

text \<open>The sum of all counts of a frequency table, as a number.\<close>

definition total_count :: "(byte \<rightharpoonup> u32) \<Rightarrow> nat" where
  "total_count frequencies = (\<Sum>e \<leftarrow> entries frequencies. unat (snd e))"

text \<open>No leaf carries the symbol \<open>\0\<close>, by which \<open>generate_huffman_codes\<close> tells inner nodes.\<close>

definition named_leaves :: "Node \<Rightarrow> bool" where
  "named_leaves tree = list_all (\<lambda>e. fst e \<noteq> 0) (leaf_codes tree)"

text \<open>
  What the stack of \<open>generate_huffman_codes\<close> still has to deliver: the leaves of its
  nodes, their paths continued from the code kept with the node.
\<close>

definition pending :: "(Node \<times> string) list \<Rightarrow> (byte \<times> string) list" where
  "pending nodes =
     concat (map (\<lambda>p. map (\<lambda>e. (fst e, snd p @ snd e)) (leaf_codes (fst p))) nodes)"

text \<open>The tree of the input \<open>ab\n\<close>, when the queue hands out the two letters first.\<close>

definition example_tree :: Node where
  "example_tree =
     parent_of (parent_of (Node 97 1 None None) (Node 98 1 None None))
               (parent_of (Node 10 1 None None) (Node 26 1 None None))"

text \<open>
  A frequency table whose counts add up to more than 32 bits hold, the tree
  \<open>build_huffman_tree\<close> builds from it, and another tree over the same leaves.
\<close>

definition heavy_table :: "byte \<rightharpoonup> u32" where
  "heavy_table =
     [97 \<mapsto> 2147483648, 98 \<mapsto> 2147483650, 99 \<mapsto> 1, 100 \<mapsto> 2147483653,
      101 \<mapsto> 2147483657]"

definition heavy_tree :: Node where
  "heavy_tree =
     parent_of
       (parent_of
          (parent_of
             (parent_of (Node 99 1 None None) (Node 97 2147483648 None None))
             (Node 98 2147483650 None None))
          (Node 100 2147483653 None None))
       (Node 101 2147483657 None None)"

definition lighter_tree :: Node where
  "lighter_tree =
     parent_of
       (parent_of
          (parent_of (Node 97 2147483648 None None) (Node 99 1 None None))
          (Node 98 2147483650 None None))
       (parent_of (Node 100 2147483653 None None) (Node 101 2147483657 None None))"

text \<open>A table of two symbols, the tree built from it, and the tree with the leaves swapped.\<close>

definition small_table :: "byte \<rightharpoonup> u32" where
  "small_table = [97 \<mapsto> 1, 98 \<mapsto> 2]"

definition small_tree :: Node where
  "small_tree = parent_of (Node 97 1 None None) (Node 98 2 None None)"

definition swapped_tree :: Node where
  "swapped_tree = parent_of (Node 98 2 None None) (Node 97 1 None None)"

text \<open>
  A bit string of at most \<open>H\<close> bits covers the numbers of \<open>H\<close> bits that begin with
  it: those from \<open>low H code\<close> up to, not including, \<open>high H code\<close>.
\<close>

definition low :: "nat \<Rightarrow> string \<Rightarrow> nat" where
  "low H code = binary_value code * 2 ^ (H - length code)"

definition high :: "nat \<Rightarrow> string \<Rightarrow> nat" where
  "high H code = (binary_value code + 1) * 2 ^ (H - length code)"

text \<open>
  A code table is prefix-free: of two distinct symbols that have codes, neither code is
  a prefix of the other.
\<close>

definition prefix_free :: "(byte \<rightharpoonup> string) \<Rightarrow> bool" where
  "prefix_free code_table =
     (\<forall>s s'. s \<noteq> s' \<longrightarrow>
        (case (code_table s, code_table s') of
           (Some c, Some c') \<Rightarrow> \<not> prefix c c' \<and> \<not> prefix c' c
         | _ \<Rightarrow> True))"



text \<open>
  Modelled from the spec: the repository has no decoder; the specification gives the
  format of the output (section 6) and says how it is read back: the first byte holds
  the width \<open>w\<close> of the length fields; the next \<open>ceil(A * w / 8)\<close> bytes hold, for every
  symbol of the alphabet in ascending order, the length of its code as a field of \<open>w\<close>
  bits, most significant bit first; the canonical codes are "fully determined by each
  symbol's code length and a fixed ordering rule", that of section 4.4 applied to the
  symbols that have a code, sorted by length and then by symbol; the remaining bytes
  are the codes of the content, and "a decoder relies on the end-of-stream symbol to
  know where content terminates".
\<close>

definition table_size :: "config \<Rightarrow> nat \<Rightarrow> nat" where
  "table_size K w = (length (alphabet K) * w + 7) div 8"

definition decode_lengths :: "config \<Rightarrow> nat \<Rightarrow> string \<Rightarrow> (byte \<times> nat) list" where
  "decode_lengths K w bits =
     map (\<lambda>i. (alphabet K ! i, binary_value (take w (drop (i * w) bits))))
       [0..<length (alphabet K)]"

definition reconstruct :: "(byte \<times> nat) list \<Rightarrow> (byte \<times> string) list" where
  "reconstruct lengths =
     canonical_assignment
       (sort_key code_key
          (map (\<lambda>e. (fst e, replicate (snd e) CHR ''0'')) (filter (\<lambda>e. 0 < snd e) lengths)))"

text \<open>
  The symbol whose code the bits begin with, and the bits after that code. In a
  prefix-free table there is at most one such symbol.
\<close>

fun decode_symbol :: "(byte \<times> string) list \<Rightarrow> string \<Rightarrow> (byte \<times> string) option" where
  "decode_symbol [] bits = None"
| "decode_symbol (e # table) bits =
     (if prefix (snd e) bits then Some (fst e, drop (length (snd e)) bits)
      else decode_symbol table bits)"

text \<open>
  The symbols of the content, up to and including the end-of-stream symbol; \<open>None\<close>
  when the bits run out, or begin with no code, before that symbol is read.
\<close>

function decode_bits :: "byte \<Rightarrow> (byte \<times> string) list \<Rightarrow> string \<Rightarrow> byte list option" where
  "decode_bits eot table bits =
     (case decode_symbol table bits of
        None \<Rightarrow> None
      | Some (s, rest) \<Rightarrow>
          if s = eot then Some [s]
          else if length rest < length bits
               then map_option (\<lambda>symbols. s # symbols) (decode_bits eot table rest)
               else None)"
  by pat_completeness auto
termination
  by (relation "measure (\<lambda>(eot, table, bits). length bits)") auto

declare decode_bits.simps [simp del]

definition decode :: "config \<Rightarrow> byte list \<Rightarrow> byte list option" where
  "decode K bytes =
     (case bytes of
        [] \<Rightarrow> None
      | first # rest \<Rightarrow>
          let w = unat first;
              n = table_size K w;
              table = reconstruct (decode_lengths K w (unpack (take n rest)))
          in decode_bits (END_OF_TEXT K) table (unpack (drop n rest)))"

text \<open>
  The table of the input made of the end-of-text symbol 26 and a line terminator, the
  tree built from it, and the bytes the encoder writes for that input: the width 1,
  fifteen bytes of fields of one bit, and one byte of content.
\<close>

definition marker_table :: "byte \<rightharpoonup> u32" where
  "marker_table = [10 \<mapsto> 1, 26 \<mapsto> 2]"

definition marker_tree :: Node where
  "marker_tree = parent_of (Node 10 1 None None) (Node 26 2 None None)"

definition marker_output :: "byte list" where
  "marker_output = [1, 64, 0, 64, 0, 0, 0, 0, 0, 0, 0, 0, 0, 0, 0, 0, 160]"

section \<open>Properties\<close>

subsection \<open>The frequency table\<close>

lemma count_characters_ok:
  "list_all (not_below_first K) cs \<Longrightarrow>
   count_characters K cs f = Inr (fold (\<lambda>c g. increment g c) cs f)"
  by (induction cs arbitrary: f) (auto simp: not_below_first_def)

lemma count_lines_ok:
  "list_all (not_below_first K) (concat (map (\<lambda>line. line @ [NEW_LINE K]) ls)) \<Longrightarrow>
   count_lines K ls f =
     Inr (fold (\<lambda>c g. increment g c) (concat (map (\<lambda>line. line @ [NEW_LINE K]) ls)) f)"
proof (induction ls arbitrary: f)
  case Nil
  then show ?case by simp
next
  case (Cons l ls)
  from Cons.prems have a: "list_all (not_below_first K) (l @ [NEW_LINE K])"
    and b: "list_all (not_below_first K) (concat (map (\<lambda>line. line @ [NEW_LINE K]) ls))"
    by simp_all
  show ?case
    using count_characters_ok [OF a, of f] Cons.IH [OF b] by simp
qed

lemma fold_increment:
  "fold (\<lambda>c g. increment g c) cs f s =
     (if count_list cs s = 0 then f s
      else Some ((case f s of None \<Rightarrow> 0 | Some m \<Rightarrow> m) + of_nat (count_list cs s)))"
  by (induction cs arbitrary: f) (auto simp: increment_def split: option.splits)

lemma increment_apply:
  "increment f c s = (if s = c then Some ((case f c of None \<Rightarrow> 0 | Some n \<Rightarrow> n) + 1) else f s)"
  by (simp add: increment_def)

lemma extract_frequencies_ok:
  assumes "list_all (not_below_first K) (symbols_read K input)"
  shows "extract_frequencies K input = Inr (counted_table K input)"
proof -
  have "increment (fold (\<lambda>c g. increment g c) (symbols_read K input) Map.empty) (END_OF_TEXT K)
        = counted_table K input"
    by (rule ext) (simp add: increment_apply fold_increment counted_table_def occurrences_def)
  with count_lines_ok [of K "getlines input" Map.empty] assms show ?thesis
    by (simp add: extract_frequencies_def symbols_read_def)
qed

text \<open>
  C6 (as the code has it). When no symbol read (a character of a line, or the line
  terminator appended to it) is below \<open>FIRST_CHARACTER\<close>, \<open>extract_frequencies\<close> returns
  the table that has an entry exactly for the symbols counted at least once, the
  end-of-text symbol among them; the entry of a symbol is the number of its
  occurrences among the symbols read, plus one for the end-of-text symbol, as a 32-bit
  unsigned value.
\<close>

theorem extract_frequencies_counts:
  assumes "list_all (not_below_first K) (symbols_read K input)"
  shows "extract_frequencies K input = Inr (counted_table K input)
         \<and> dom (counted_table K input) = set (symbols_read K input) \<union> {END_OF_TEXT K}
         \<and> (\<forall>s \<in> dom (counted_table K input).
               counted_table K input s = Some (of_nat (occurrences K input s)))
         \<and> occurrences K input (END_OF_TEXT K)
             = count_list (symbols_read K input) (END_OF_TEXT K) + 1"
proof -
  have "dom (counted_table K input) = set (symbols_read K input) \<union> {END_OF_TEXT K}"
    by (auto simp: counted_table_def occurrences_def dom_def count_list_0_iff split: if_splits)
  moreover have "\<forall>s \<in> dom (counted_table K input).
      counted_table K input s = Some (of_nat (occurrences K input s))"
    by (auto simp: counted_table_def split: if_splits)
  ultimately show ?thesis
    using extract_frequencies_ok [OF assms] by (simp add: occurrences_def)
qed

lemma example_symbols_read: "symbols_read example_config [97, 98, 10] = [97, 98, 10]"
  by (simp add: symbols_read_def getlines_def example_config_def)

theorem extract_frequencies_counts_witness:
  "list_all (not_below_first example_config) (symbols_read example_config [97, 98, 10])
   \<and> extract_frequencies example_config [97, 98, 10]
       = Inr (counted_table example_config [97, 98, 10])
   \<and> counted_table example_config [97, 98, 10] 97 = Some 1
   \<and> counted_table example_config [97, 98, 10] 10 = Some 1
   \<and> counted_table example_config [97, 98, 10] 26 = Some 1"
proof -
  have h: "list_all (not_below_first example_config) (symbols_read example_config [97, 98, 10])"
    unfolding example_symbols_read by (simp add: not_below_first_def example_config_def)
  have "counted_table example_config [97, 98, 10] 97 = Some 1"
    "counted_table example_config [97, 98, 10] 10 = Some 1"
    "counted_table example_config [97, 98, 10] 26 = Some 1"
    unfolding counted_table_def occurrences_def example_symbols_read
    by (simp_all add: example_config_def)
  with h extract_frequencies_counts [OF h] show ?thesis by simp
qed

text \<open>
  The claim as the specification words it asks for an entry for every symbol of the
  alphabet. The table of the input \<open>ab\n\<close> has none for the letter \<open>c\<close>, a symbol of
  the alphabet.
\<close>

theorem extract_frequencies_sparse_counterexample:
  "list_all (in_alphabet example_config) [97, 98, 10]
   \<and> in_alphabet example_config 99
   \<and> (case extract_frequencies example_config [97, 98, 10] of
        Inl e \<Rightarrow> False
      | Inr frequencies \<Rightarrow> frequencies 99 = None)"
proof -
  have h: "list_all (not_below_first example_config) (symbols_read example_config [97, 98, 10])"
    unfolding example_symbols_read by (simp add: not_below_first_def example_config_def)
  have "counted_table example_config [97, 98, 10] 99 = None"
    unfolding counted_table_def occurrences_def example_symbols_read
    by (simp add: example_config_def)
  with extract_frequencies_ok [OF h] show ?thesis
    by (simp add: in_alphabet_def example_config_def)
qed

subsection \<open>Unsupported characters\<close>

lemma count_characters_Inl:
  "count_characters K cs f = Inl e \<Longrightarrow>
   \<exists>c \<in> set cs. e = UnsupportedCharacter c \<and> \<not> not_below_first K c"
  by (induction cs arbitrary: f) (auto simp: not_below_first_def split: if_splits)

lemma count_characters_cases:
  "(\<exists>g. count_characters K cs f = Inr g) \<or>
   (\<exists>c \<in> set cs. count_characters K cs f = Inl (UnsupportedCharacter c) \<and> \<not> not_below_first K c)"
  by (induction cs arbitrary: f) (auto simp: not_below_first_def)

lemma count_lines_Inl:
  "count_lines K ls f = Inl e \<Longrightarrow>
   \<exists>c \<in> set (concat (map (\<lambda>line. line @ [NEW_LINE K]) ls)).
      e = UnsupportedCharacter c \<and> \<not> not_below_first K c"
proof (induction ls arbitrary: f)
  case Nil
  then show ?case by simp
next
  case (Cons l ls)
  show ?case
  proof (cases "count_characters K (l @ [NEW_LINE K]) f")
    case (Inl e')
    with Cons.prems have "e' = e" by simp
    with Inl count_characters_Inl [of K "l @ [NEW_LINE K]" f e] show ?thesis by auto
  next
    case (Inr g)
    with Cons.prems have "count_lines K ls g = Inl e" by simp
    from Cons.IH [OF this] show ?thesis by auto
  qed
qed

lemma extract_frequencies_Inl:
  "extract_frequencies K input = Inl e \<Longrightarrow>
   \<exists>c \<in> set (symbols_read K input). e = UnsupportedCharacter c \<and> \<not> not_below_first K c"
  using count_lines_Inl [of K "getlines input" Map.empty e]
  by (auto simp: extract_frequencies_def symbols_read_def split: sum.splits)

lemma extract_frequencies_cases:
  "(if list_all (not_below_first K) (symbols_read K input)
    then extract_frequencies K input = Inr (counted_table K input)
    else \<exists>c \<in> set (symbols_read K input).
           extract_frequencies K input = Inl (UnsupportedCharacter c) \<and> \<not> not_below_first K c)"
proof (cases "list_all (not_below_first K) (symbols_read K input)")
  case True
  then show ?thesis by (simp add: extract_frequencies_ok)
next
  case False
  have "\<exists>e. extract_frequencies K input = Inl e"
  proof (cases "extract_frequencies K input")
    case (Inr g)
    then obtain g' where g': "count_lines K (getlines input) Map.empty = Inr g'"
      by (auto simp: extract_frequencies_def split: sum.splits)
    have "list_all (not_below_first K) (concat (map (\<lambda>line. line @ [NEW_LINE K]) ls))" 
      if "count_lines K ls f = Inr h" for ls f h
      using that
    proof (induction ls arbitrary: f)
      case Nil then show ?case by simp
    next
      case (Cons l ls)
      then obtain g1 where g1: "count_characters K (l @ [NEW_LINE K]) f = Inr g1"
        and r: "count_lines K ls g1 = Inr h" by (auto split: sum.splits)
      have "list_all (not_below_first K) cs" if "count_characters K cs f' = Inr h'" for cs f' h'
        using that by (induction cs arbitrary: f') (auto simp: not_below_first_def split: if_splits)
      from this [OF g1] Cons.IH [OF r] show ?case by simp
    qed
    from this [OF g'] False show ?thesis by (simp add: symbols_read_def)
  qed auto
  with extract_frequencies_Inl [of K input] False show ?thesis by auto
qed

lemma read_lines_concat:
  "10 \<notin> set line \<Longrightarrow>
   concat (map (\<lambda>l. l @ [10]) (read_lines cs line))
     = line @ cs @ (if line @ cs = [] \<or> last (line @ cs) = 10 then [] else [10])"
proof (induction cs arbitrary: line)
  case Nil
  then show ?case by (cases line rule: rev_cases) auto
next
  case (Cons c cs)
  show ?case
  proof (cases "c = 10")
    case True
    with Cons.IH [of "[]"] show ?thesis by simp
  next
    case False
    with Cons.prems Cons.IH [of "line @ [c]"] show ?thesis by simp
  qed
qed

lemma symbols_read_eq:
  "NEW_LINE K = 10 \<Longrightarrow>
   symbols_read K input = input @ (if input = [] \<or> last input = 10 then [] else [10])"
  using read_lines_concat [of "[]" input] by (simp add: symbols_read_def getlines_def)

lemma below_first_symbols_read:
  assumes "NEW_LINE K = 10" and "sint (FIRST_CHARACTER K) \<le> 10"
  shows "list_all (not_below_first K) (symbols_read K input) = list_all (not_below_first K) input"
proof -
  have "not_below_first K 10" using assms by (simp add: not_below_first_def)
  then show ?thesis by (simp add: symbols_read_eq [OF assms(1)])
qed


lemma is_unsupported_simps [simp]:
  "is_unsupported (UnsupportedCharacter c)"
  "\<not> is_unsupported OutOfRange"
  "\<not> is_unsupported UndefinedBehaviour"
  "\<not> is_unsupported NonBinaryBuffer"
  by (simp_all add: is_unsupported_def)

lemma next_binary_loop_error:
  "next_binary_loop number carry index = Inl e \<Longrightarrow> e = UndefinedBehaviour"
proof (induction number carry index rule: next_binary_loop.induct)
  case (1 number carry index)
  from "1.prems" show ?case
    by (subst (asm) next_binary_loop.simps) (auto simp: Let_def split: if_splits intro: "1.IH")
qed

lemma assign_codes_error:
  "assign_codes hc last_code t = Inl e \<Longrightarrow> e = UndefinedBehaviour"
  by (induction hc arbitrary: last_code t)
     (auto simp: next_binary_def Let_def split: sum.splits dest: next_binary_loop_error)

lemma generate_canonical_codes_error:
  "generate_canonical_codes hc = Inl e \<Longrightarrow> e = UndefinedBehaviour"
  by (auto simp: generate_canonical_codes_def Let_def split: list.splits dest: assign_codes_error)

lemma put_bit_error: "put_bit b st = Inl e \<Longrightarrow> e = NonBinaryBuffer"
  by (auto simp: put_bit_def stoi2_def Let_def split: if_splits sum.splits)

lemma put_bits_error: "put_bits bs st = Inl e \<Longrightarrow> e = NonBinaryBuffer"
  by (induction bs arbitrary: st) (auto split: sum.splits dest: put_bit_error)

lemma flush_error: "flush st = Inl e \<Longrightarrow> e = NonBinaryBuffer"
  by (auto simp: flush_def stoi2_def split: if_splits sum.splits)

lemma header_loop_error_aux:
  "header_loop K bit_count character code_table st = Some y \<Longrightarrow>
   (\<forall>e. fst y = Inl e \<longrightarrow> \<not> is_unsupported e)"
proof (erule header_loop.raw_induct [rotated], goal_cases)
  case (1 f K bit_count character code_table st y)
  from "1"(2) show ?case
    by (auto simp: Let_def length_field_def
             split: if_splits sum.splits dest: put_bits_error "1"(1) [rule_format])
qed

lemma header_loop_error:
  "header_loop K bit_count character code_table st = Some (Inl e, code_table') \<Longrightarrow>
   \<not> is_unsupported e"
  using header_loop_error_aux by fastforce

lemma encode_codes_length_error:
  "encode_codes_length K code_table = Some (Inl e, code_table') \<Longrightarrow> \<not> is_unsupported e"
  by (auto simp: encode_codes_length_def Let_def
           split: if_splits option.splits sum.splits prod.splits
           dest: header_loop_error flush_error)

lemma encode_characters_error:
  "encode_characters code_table cs st = Inl e \<Longrightarrow> e = NonBinaryBuffer"
  by (induction cs arbitrary: st) (auto split: sum.splits dest: put_bits_error)

lemma encode_lines_error:
  "encode_lines K code_table ls st = Inl e \<Longrightarrow> e = NonBinaryBuffer"
  by (induction ls arbitrary: st) (auto split: sum.splits dest: encode_characters_error)

lemma encode_content_error:
  "encode_content K file code_table = Inl e \<Longrightarrow> e = NonBinaryBuffer"
  by (auto simp: encode_content_def split: sum.splits
           dest: encode_lines_error put_bits_error flush_error)

lemma encode_with_tree_error:
  "encode_with_tree K file tree = Some (Inl e) \<Longrightarrow> \<not> is_unsupported e"
  by (auto simp: encode_with_tree_def
           split: sum.splits option.splits prod.splits
           dest: generate_canonical_codes_error encode_codes_length_error encode_content_error)

lemma read_file_input:
  "read_file (fs(file_path @ ''.hf'' \<mapsto> bytes)) file_path = read_file fs file_path"
  by (simp add: read_file_def)

lemma create_compressed_file_rejects:
  assumes "\<not> list_all (not_below_first K) (symbols_read K (read_file fs file_path))"
  shows "\<exists>c. \<not> not_below_first K c \<and>
           (\<forall>outcome. create_compressed_file K fs file_path outcome \<longleftrightarrow>
              outcome = (fs(file_path @ ''.hf'' \<mapsto> []), Some (UnsupportedCharacter c)))"
proof -
  from extract_frequencies_cases [of K "read_file fs file_path"] assms
  obtain c where c: "extract_frequencies K (read_file fs file_path) = Inl (UnsupportedCharacter c)"
    and below: "\<not> not_below_first K c"
    by auto
  have "create_compressed_file K fs file_path outcome \<longleftrightarrow>
          outcome = (fs(file_path @ ''.hf'' \<mapsto> []), Some (UnsupportedCharacter c))" for outcome
  proof
    assume "create_compressed_file K fs file_path outcome"
    then show "outcome = (fs(file_path @ ''.hf'' \<mapsto> []), Some (UnsupportedCharacter c))"
      using c by cases (simp_all add: read_file_input)
  next
    assume "outcome = (fs(file_path @ ''.hf'' \<mapsto> []), Some (UnsupportedCharacter c))"
    then show "create_compressed_file K fs file_path outcome"
      using c by (simp add: rejected read_file_input)
  qed
  with below show ?thesis by blast
qed

lemma create_compressed_file_accepts:
  assumes "list_all (not_below_first K) (symbols_read K (read_file fs file_path))"
    and "create_compressed_file K fs file_path (fs', Some e)"
  shows "\<not> is_unsupported e"
  using assms(2)
proof cases
  case rejected
  with extract_frequencies_ok [OF assms(1)] show ?thesis
    by (simp add: read_file_input)
next
  case (failed frequencies tree)
  then show ?thesis by (auto dest: encode_with_tree_error)
qed

text \<open>
  C5 (as the code has it). With the line terminator \<open>\n\<close> a supported character,
  \<open>create_compressed_file\<close> ends with the exception for an unsupported character if and
  only if some byte of the input file is below \<open>FIRST_CHARACTER\<close>. In that case this is
  the only way the call can end: the exception carries a character below
  \<open>FIRST_CHARACTER\<close>, and the output file exists and is empty (it was created when the
  output stream was opened, and no byte of header or content reached it).
\<close>

theorem create_compressed_file_unsupported:
  assumes "NEW_LINE K = 10" and "sint (FIRST_CHARACTER K) \<le> 10"
  shows "((\<exists>fs' e. create_compressed_file K fs file_path (fs', Some e) \<and> is_unsupported e)
            \<longleftrightarrow> (\<exists>b \<in> set (read_file fs file_path). sint b < sint (FIRST_CHARACTER K)))
         \<and> ((\<exists>b \<in> set (read_file fs file_path). sint b < sint (FIRST_CHARACTER K)) \<longrightarrow>
              (\<exists>c. sint c < sint (FIRST_CHARACTER K) \<and>
                 (\<forall>outcome. create_compressed_file K fs file_path outcome \<longleftrightarrow>
                    outcome = (fs(file_path @ ''.hf'' \<mapsto> []), Some (UnsupportedCharacter c)))))"
proof -
  let ?below = "\<exists>b \<in> set (read_file fs file_path). sint b < sint (FIRST_CHARACTER K)"
  have iff: "?below \<longleftrightarrow> \<not> list_all (not_below_first K) (symbols_read K (read_file fs file_path))"
    unfolding below_first_symbols_read [OF assms]
    by (simp add: list_all_iff not_below_first_def not_le)
  have second: "\<exists>c. sint c < sint (FIRST_CHARACTER K) \<and>
                 (\<forall>outcome. create_compressed_file K fs file_path outcome \<longleftrightarrow>
                    outcome = (fs(file_path @ ''.hf'' \<mapsto> []), Some (UnsupportedCharacter c)))"
    if ?below
  proof -
    from that iff create_compressed_file_rejects [of K fs file_path]
    obtain c where "\<not> not_below_first K c"
      and "\<forall>outcome. create_compressed_file K fs file_path outcome \<longleftrightarrow>
              outcome = (fs(file_path @ ''.hf'' \<mapsto> []), Some (UnsupportedCharacter c))"
      by blast
    then show ?thesis
      by (intro exI [of _ c]) (simp add: not_below_first_def not_le)
  qed
  have "\<exists>fs' e. create_compressed_file K fs file_path (fs', Some e) \<and> is_unsupported e"
    if ?below
    using second [OF that] by (metis is_unsupported_simps(1))
  moreover have ?below
    if "\<exists>fs' e. create_compressed_file K fs file_path (fs', Some e) \<and> is_unsupported e"
    using that create_compressed_file_accepts [of K fs file_path] iff by blast
  ultimately show ?thesis using second by blast
qed

theorem create_compressed_file_unsupported_witness:
  "NEW_LINE example_config = 10 \<and> sint (FIRST_CHARACTER example_config) \<le> 10
   \<and> (\<exists>b \<in> set (read_file [''in'' \<mapsto> [97, 1, 10]] ''in'').
         sint b < sint (FIRST_CHARACTER example_config))
   \<and> (\<exists>fs' e. create_compressed_file example_config [''in'' \<mapsto> [97, 1, 10]] ''in'' (fs', Some e)
         \<and> is_unsupported e)"
proof -
  have a: "NEW_LINE example_config = 10" and b: "sint (FIRST_CHARACTER example_config) \<le> 10"
    by (simp_all add: example_config_def)
  have c: "\<exists>b \<in> set (read_file [''in'' \<mapsto> [97, 1, 10]] ''in'').
             sint b < sint (FIRST_CHARACTER example_config)"
    by (simp add: read_file_def example_config_def)
  with create_compressed_file_unsupported [OF a b, of "[''in'' \<mapsto> [97, 1, 10]]" "''in''"] a b
  show ?thesis by blast
qed

text \<open>
  The claim as the specification words it has no output artifact produced when the
  exception is raised. For an input file holding the bytes 97, 1, 10 and no file
  \<open>in.hf\<close> before the call, the call ends with the exception for the character 1 and
  leaves the file \<open>in.hf\<close> behind, empty.
\<close>

theorem create_compressed_file_artifact_counterexample:
  "[''in'' \<mapsto> [97, 1, 10 :: byte]] ''in.hf'' = None
   \<and> create_compressed_file example_config [''in'' \<mapsto> [97, 1, 10]] ''in''
        ([''in'' \<mapsto> [97, 1, 10], ''in.hf'' \<mapsto> []], Some (UnsupportedCharacter 1))
   \<and> [''in'' \<mapsto> [97, 1, 10 :: byte], ''in.hf'' \<mapsto> []] ''in.hf'' = Some []"
proof -
  have "extract_frequencies example_config [97, 1, 10] = Inl (UnsupportedCharacter 1)"
    by (simp add: extract_frequencies_def getlines_def example_config_def)
  then have "extract_frequencies example_config
               (read_file ([''in'' \<mapsto> [97, 1, 10]](''in'' @ ''.hf'' \<mapsto> [])) ''in'')
             = Inl (UnsupportedCharacter 1)"
    by (simp add: read_file_def)
  from rejected [OF refl this] show ?thesis by simp
qed

subsection \<open>Tables and their entries\<close>

lemma set_all_bytes: "set all_bytes = UNIV"
proof -
  have "w \<in> set all_bytes" for w :: byte
  proof -
    have "unat w < 256" using unsigned_less [of w, where 'a = nat] by simp
    then have "unat w \<in> {0..<256}" by simp
    moreover have "w = of_nat (unat w)" by simp
    ultimately have "w \<in> of_nat ` {0..<256}" by (rule image_eqI [rotated])
    then show ?thesis by (simp add: all_bytes_def)
  qed
  then show ?thesis by blast
qed


lemma set_entries_aux:
  "set (concat (map (\<lambda>s. case table s of None \<Rightarrow> [] | Some v \<Rightarrow> [(s, v)]) xs))
   = {(s, v). s \<in> set xs \<and> table s = Some v}"
  by (induction xs) (auto split: option.splits)

lemma set_entries: "set (entries table) = {(s, v). table s = Some v}"
  by (auto simp: entries_def set_entries_aux set_all_bytes)








subsection \<open>Bit strings and the packing loops\<close>



lemma binary_value_Nil [simp]: "binary_value [] = 0"
  by (simp add: binary_value_def)

lemma binary_value_snoc:
  "binary_value (bs @ [b]) = 2 * binary_value bs + (if b = CHR ''1'' then 1 else 0)"
  by (simp add: binary_value_def)

lemma binary_value_bound: "binary_value bs < 2 ^ length bs"
  by (induction bs rule: rev_induct) (auto simp: binary_value_snoc)

lemma length_bitset_to_string [simp]: "length (bitset_to_string n v) = n"
  by (induction n arbitrary: v) auto

lemma bits_bitset_to_string [simp]: "list_all is_bit (bitset_to_string n v)"
  by (induction n arbitrary: v) (auto simp: is_bit_def)






lemma length_unpack [simp]: "length (unpack bytes) = 8 * length bytes"
  by (induction bytes) (auto simp: unpack_def bits_of_byte_def)

lemma unpack_append [simp]: "unpack (xs @ ys) = unpack xs @ unpack ys"
  by (simp add: unpack_def)



lemma put_bits_append:
  "put_bits (xs @ ys) st = (case put_bits xs st of Inl e \<Rightarrow> Inl e | Inr st' \<Rightarrow> put_bits ys st')"
  by (induction xs arbitrary: st) (auto split: sum.splits)


subsection \<open>The header\<close>


lemma code_of_upd_same [simp]:
  "code_of (code_table(c \<mapsto> code_of code_table c)) = code_of code_table"
  by (rule ext) (simp add: code_of_def)
















lemma length_consecutive [simp]: "length (consecutive c n) = n"
  by (induction n arbitrary: c) auto










subsection \<open>The successor of a code and the canonical assignment\<close>

lemma next_binary_loop_successor:
  "list_all is_bit front \<Longrightarrow> length tail_bits = carry \<Longrightarrow> front \<noteq> [] \<or> carry \<noteq> 0 \<Longrightarrow>
   next_binary_loop (front @ tail_bits) carry (Suc carry)
     = Inr (rev (increment_reversed (rev front)) @ tail_bits)"
proof (induction front arbitrary: tail_bits carry rule: rev_induct)
  case Nil
  then have c: "carry \<noteq> 0" by simp
  have "next_binary_loop tail_bits carry (Suc carry)
          = next_binary_loop (CHR ''1'' # tail_bits) (carry - 1) (Suc (Suc carry))"
    using Nil c by (subst next_binary_loop.simps) simp
  also have "\<dots> = Inr (CHR ''1'' # tail_bits)"
    using c by (subst next_binary_loop.simps) simp
  finally show ?case by simp
next
  case (snoc b front)
  have len: "length (front @ b # tail_bits) - Suc carry = length front"
    using snoc.prems(2) by simp
  have step: "next_binary_loop (front @ b # tail_bits) carry (Suc carry)
          = next_binary_loop (front @ (flip b # tail_bits))
              (if b = CHR ''1'' then carry + 1 else carry) (Suc (Suc carry))"
    using snoc.prems(2)
    by (subst next_binary_loop.simps) (simp only: len Let_def nth_append_length list_update_length, simp)
  show ?case
  proof (cases "b = CHR ''1''")
    case True
    from snoc.prems(1) have bits: "list_all is_bit front" by simp
    have "next_binary_loop (front @ (CHR ''0'' # tail_bits)) (Suc carry) (Suc (Suc carry))
            = Inr (rev (increment_reversed (rev front)) @ (CHR ''0'' # tail_bits))"
      using snoc.IH [OF bits, of "CHR ''0'' # tail_bits" "Suc carry"] snoc.prems(2) by simp
    with step True show ?thesis by (simp add: flip_def)
  next
    case False
    with snoc.prems(1) have b: "b = CHR ''0''" by (simp add: is_bit_def)
    have "next_binary_loop (front @ (CHR ''1'' # tail_bits)) carry (Suc (Suc carry))
            = Inr (front @ (CHR ''1'' # tail_bits))"
      by (subst next_binary_loop.simps) simp
    with step b show ?thesis by (simp add: flip_def)
  qed
qed

lemma next_binary_successor:
  "list_all is_bit number \<Longrightarrow> number \<noteq> [] \<Longrightarrow> next_binary number = Inr (successor number)"
  using next_binary_loop_successor [of number "[]" 0]
  by (simp add: next_binary_def successor_def)

lemma next_binary_empty: "next_binary [] = Inl UndefinedBehaviour"
  unfolding next_binary_def by (subst next_binary_loop.simps) simp

lemma bits_increment_reversed: "list_all is_bit bs \<Longrightarrow> list_all is_bit (increment_reversed bs)"
  by (induction bs) (auto simp: is_bit_def)

lemma bits_successor: "list_all is_bit number \<Longrightarrow> list_all is_bit (successor number)"
  by (simp add: successor_def bits_increment_reversed)

lemma increment_reversed_not_Nil [simp]: "increment_reversed bs \<noteq> []"
  by (cases bs) auto

lemma successor_not_Nil [simp]: "successor number \<noteq> []"
  by (simp add: successor_def)

lemma bits_zeros [simp]: "list_all is_bit (replicate n CHR ''0'')"
  by (induction n) (simp_all add: is_bit_def)

lemma bits_pad: "list_all is_bit code \<Longrightarrow> list_all is_bit (pad code n)"
  by (simp add: pad_def)

lemma pad_not_Nil: "code \<noteq> [] \<Longrightarrow> pad code n \<noteq> []"
  by (simp add: pad_def)

lemma map_upd_add: "table(k \<mapsto> v) ++ m = table ++ ([k \<mapsto> v] ++ m)"
  by (rule ext) (simp add: map_add_def split: option.splits)

lemma assign_codes_canonical:
  "list_all is_bit last_code \<Longrightarrow> last_code \<noteq> [] \<or> rest = [] \<Longrightarrow>
   assign_codes rest last_code table
     = Inr (table ++ map_of (rev (canonical_after last_code rest)))"
proof (induction rest arbitrary: last_code table)
  case Nil
  then show ?case by simp
next
  case (Cons e rest)
  then have ne: "last_code \<noteq> []" by simp
  let ?code = "pad (successor last_code) (length (snd e))"
  have bits: "list_all is_bit ?code"
    by (intro bits_pad bits_successor Cons.prems(1))
  have "?code \<noteq> []" by (intro pad_not_Nil) simp
  then have ne': "?code \<noteq> [] \<or> rest = []" by simp
  have tables: "table(fst e \<mapsto> ?code) ++ map_of (rev (canonical_after ?code rest))
      = table ++ map_of (rev (canonical_after last_code (e # rest)))"
    by (subst map_upd_add) (simp add: pad_def Let_def)
  have "assign_codes (e # rest) last_code table
      = assign_codes rest ?code (table(fst e \<mapsto> ?code))"
    by (simp add: next_binary_successor [OF Cons.prems(1) ne] Let_def)
  also have "\<dots> = Inr (table(fst e \<mapsto> ?code) ++ map_of (rev (canonical_after ?code rest)))"
    by (rule Cons.IH [OF bits ne'])
  finally show ?case unfolding tables .
qed

lemma value_increment_reversed:
  "list_all is_bit bs \<Longrightarrow>
   binary_value (rev (increment_reversed bs)) = binary_value (rev bs) + 1"
  by (induction bs) (auto simp: binary_value_snoc is_bit_def binary_value_def)

lemma length_increment_reversed:
  "length (increment_reversed bs)
     = (if list_all (\<lambda>c. c = CHR ''1'') bs then length bs + 1 else length bs)"
  by (induction bs) auto

lemma successor_value:
  "list_all is_bit number \<Longrightarrow> binary_value (successor number) = binary_value number + 1"
  using value_increment_reversed [of "rev number"] by (simp add: successor_def)

lemma successor_length:
  "length (successor number)
     = (if list_all (\<lambda>c. c = CHR ''1'') number then length number + 1 else length number)"
  using length_increment_reversed [of "rev number"] by (simp add: successor_def)

lemma map_fst_canonical_after: "map fst (canonical_after previous rest) = map fst rest"
  by (induction rest arbitrary: previous) (auto simp: Let_def)

lemma length_canonical_assignment [simp]:
  "length (canonical_assignment huffman_codes) = length huffman_codes"
proof -
  have "length (canonical_after previous rest) = length rest" for previous rest
    by (induction rest arbitrary: previous) (auto simp: Let_def)
  then show ?thesis by (simp add: canonical_assignment_def split: list.splits)
qed

lemma map_fst_canonical_assignment:
  "map fst (canonical_assignment huffman_codes) = map fst huffman_codes"
  by (simp add: canonical_assignment_def map_fst_canonical_after split: list.splits)

lemma lengths_canonical_after:
  "successors_fit previous rest \<Longrightarrow>
   map (\<lambda>e. length (snd e)) (canonical_after previous rest) = map (\<lambda>e. length (snd e)) rest"
  by (induction rest arbitrary: previous) (auto simp: Let_def)

lemma lengths_canonical_assignment:
  "codes_fit huffman_codes \<Longrightarrow>
   map (\<lambda>e. length (snd e)) (canonical_assignment huffman_codes)
     = map (\<lambda>e. length (snd e)) huffman_codes"
  by (auto simp: codes_fit_def canonical_assignment_def lengths_canonical_after
           split: list.splits)

lemma generate_canonical_codes_eq:
  assumes "huffman_codes \<noteq> []"
    and "snd (hd huffman_codes) \<noteq> [] \<or> length huffman_codes = 1"
  shows "generate_canonical_codes huffman_codes
           = Inr (map_of (rev (canonical_assignment huffman_codes)))"
proof -
  from assms(1) obtain e rest where hc: "huffman_codes = e # rest"
    by (cases huffman_codes) auto
  let ?zeros = "replicate (length (snd e)) CHR ''0''"
  have "?zeros \<noteq> [] \<or> rest = []" using assms(2) hc by auto
  from assign_codes_canonical [OF _ this, of "[fst e \<mapsto> ?zeros]"]
  show ?thesis
    by (simp add: hc generate_canonical_codes_def canonical_assignment_def Let_def)
qed

text \<open>
  C3 (as the code has it). For every non-empty list of symbols with raw codes whose first
  raw code is not empty, or which has a single entry, and in which no successor is
  longer than the raw code of the symbol it is assigned to, \<open>generate_canonical_codes\<close>
  returns the table of these assignments, made in the order of the list: the first
  symbol receives the all-zero bit string of the length of its raw code, and every
  further symbol the successor of the code assigned before it, with \<open>0\<close> bits appended
  on the right until it is as long as its own raw code; every assigned code is as long
  as the raw code of its symbol. The successor of a bit string has the value of the
  string plus one, and it is one bit longer than the string exactly when the string
  consists of \<open>1\<close> only, the carry then passing the most significant bit; otherwise it
  is as long as the string.
\<close>

theorem generate_canonical_codes_assignment:
  assumes "huffman_codes \<noteq> []"
    and "snd (hd huffman_codes) \<noteq> [] \<or> length huffman_codes = 1"
    and "codes_fit huffman_codes"
  shows "generate_canonical_codes huffman_codes
           = Inr (map_of (rev (canonical_assignment huffman_codes)))
    \<and> map fst (canonical_assignment huffman_codes) = map fst huffman_codes
    \<and> map (\<lambda>e. length (snd e)) (canonical_assignment huffman_codes)
        = map (\<lambda>e. length (snd e)) huffman_codes
    \<and> (distinct (map fst huffman_codes) \<longrightarrow>
         (\<forall>i < length huffman_codes.
            map_of (rev (canonical_assignment huffman_codes)) (fst (huffman_codes ! i))
              = Some (snd (canonical_assignment huffman_codes ! i))))
    \<and> (\<forall>number. list_all is_bit number \<longrightarrow>
          binary_value (successor number) = binary_value number + 1
        \<and> (length (successor number) = length number + 1
             \<longleftrightarrow> list_all (\<lambda>c. c = CHR ''1'') number)
        \<and> (length (successor number) = length number
             \<longleftrightarrow> \<not> list_all (\<lambda>c. c = CHR ''1'') number))"
proof -
  have "map_of (rev (canonical_assignment huffman_codes)) (fst (huffman_codes ! i))
          = Some (snd (canonical_assignment huffman_codes ! i))"
    if d: "distinct (map fst huffman_codes)" and i: "i < length huffman_codes" for i
  proof -
    let ?ca = "canonical_assignment huffman_codes"
    have d': "distinct (map fst (rev ?ca))"
      using d by (simp add: rev_map [symmetric] map_fst_canonical_assignment)
    have "fst (?ca ! i) = fst (huffman_codes ! i)"
      using i map_fst_canonical_assignment [of huffman_codes]
      by (metis length_canonical_assignment nth_map)
    moreover have "(fst (?ca ! i), snd (?ca ! i)) \<in> set (rev ?ca)" using i by simp
    ultimately show ?thesis
      using map_of_is_SomeI [OF d', of "fst (?ca ! i)" "snd (?ca ! i)"] by simp
  qed
  with generate_canonical_codes_eq [OF assms(1,2)] map_fst_canonical_assignment
    lengths_canonical_assignment [OF assms(3)] successor_value successor_length
  show ?thesis by simp
qed

text \<open>
  Two lists to try the assignment on. In the first, the successor \<open>1\<close> of the first code
  is padded to \<open>100\<close>; in the second, the successor of the code \<open>1\<close> grows to \<open>10\<close>,
  as long as the raw code it replaces.
\<close>

lemma padding_assignment:
  "canonical_assignment
     [(97, ''0''), (98, ''100''), (99, ''101''), (100, ''110''), (101, ''111'')]
   = [(97, ''0''), (98, ''100''), (99, ''101''), (100, ''110''), (101, ''111'')]"
  by (simp add: canonical_assignment_def successor_def)

lemma growing_assignment:
  "canonical_assignment [(97, ''1''), (98, ''0''), (99, ''11'')]
     = [(97, ''0''), (98, ''1''), (99, ''10'')]"
  by (simp add: canonical_assignment_def successor_def)

theorem generate_canonical_codes_assignment_witness:
  "codes_fit [(97, ''0''), (98, ''100''), (99, ''101''), (100, ''110''), (101, ''111'')]
   \<and> generate_canonical_codes
        [(97, ''0''), (98, ''100''), (99, ''101''), (100, ''110''), (101, ''111'')]
       = Inr (map_of (rev
           [(97, ''0''), (98, ''100''), (99, ''101''), (100, ''110''), (101, ''111'')]))
   \<and> codes_fit [(97, ''1''), (98, ''0''), (99, ''11'')]
   \<and> generate_canonical_codes [(97, ''1''), (98, ''0''), (99, ''11'')]
       = Inr (map_of (rev [(97, ''0''), (98, ''1''), (99, ''10'')]))"
proof -
  let ?p = "[(97 :: byte, ''0''), (98, ''100''), (99, ''101''), (100, ''110''), (101, ''111'')]"
  let ?g = "[(97 :: byte, ''1''), (98, ''0''), (99, ''11'')]"
  have p1: "?p \<noteq> []" and p2: "snd (hd ?p) \<noteq> [] \<or> length ?p = 1" by simp_all
  have p3: "codes_fit ?p" by (simp add: codes_fit_def successor_def)
  have g1: "?g \<noteq> []" and g2: "snd (hd ?g) \<noteq> [] \<or> length ?g = 1" by simp_all
  have g3: "codes_fit ?g" by (simp add: codes_fit_def successor_def)
  from generate_canonical_codes_assignment [OF p1 p2 p3]
       generate_canonical_codes_assignment [OF g1 g2 g3] p3 g3
  show ?thesis unfolding padding_assignment growing_assignment by simp
qed

text \<open>
  The claim as the specification words it covers every non-empty sorted list. On the
  sorted list of the symbol \<open>a\<close> with the empty raw code and the symbol \<open>b\<close> with the
  raw code \<open>0\<close>, \<open>next_binary\<close> is called with the empty string and subscripts it out of
  bounds: no code is assigned to \<open>b\<close>. On the sorted list of three symbols with raw
  codes of one bit, the successor of the code \<open>1\<close> has two bits: the code assigned to
  the third symbol is longer than its raw code, which no padding can mend.
\<close>

theorem generate_canonical_codes_counterexample:
  "[(97, ''''), (98, ''0'')] \<noteq> ([] :: (byte \<times> string) list)
   \<and> sorted (map code_key [(97, ''''), (98, ''0'')])
   \<and> generate_canonical_codes [(97, ''''), (98, ''0'')] = Inl UndefinedBehaviour
   \<and> sorted (map code_key [(97, ''0''), (98, ''0''), (99, ''0'')])
   \<and> generate_canonical_codes [(97, ''0''), (98, ''0''), (99, ''0'')]
       = Inr [97 \<mapsto> ''0'', 98 \<mapsto> ''1'', 99 \<mapsto> ''10'']
   \<and> length ''10'' \<noteq> length ''0''"
proof -
  have a: "generate_canonical_codes [(97, ''''), (98, ''0'')] = Inl UndefinedBehaviour"
    by (simp add: generate_canonical_codes_def next_binary_empty)
  have e: "canonical_assignment [(97, ''0''), (98, ''0''), (99, ''0'')]
      = [(97, ''0''), (98, ''1''), (99, ''10'')]"
    by (simp add: canonical_assignment_def successor_def)
  have "generate_canonical_codes [(97, ''0''), (98, ''0''), (99, ''0'')]
       = Inr (map_of (rev (canonical_assignment [(97, ''0''), (98, ''0''), (99, ''0'')])))"
    by (rule generate_canonical_codes_eq) simp_all
  then have b: "generate_canonical_codes [(97, ''0''), (98, ''0''), (99, ''0'')]
       = Inr [97 \<mapsto> ''0'', 98 \<mapsto> ''1'', 99 \<mapsto> ''10'']"
    unfolding e by (auto simp: fun_eq_iff)
  from a b show ?thesis by (simp add: code_key_def)
qed

subsection \<open>The codes read off a tree\<close>

lemma pending_Cons:
  "pending ((n, code) # nodes) = map (\<lambda>e. (fst e, code @ snd e)) (leaf_codes n) @ pending nodes"
  by (simp add: pending_def)

lemma traverse_mset:
  "list_all (\<lambda>p. huffman_tree (fst p)) nodes \<Longrightarrow>
   mset (traverse nodes huffman_codes)
     = mset huffman_codes + filter_mset (\<lambda>e. fst e \<noteq> 0) (mset (pending nodes))"
proof (induction nodes huffman_codes rule: traverse.induct)
  case (1 huffman_codes)
  then show ?case by (simp add: pending_def traverse.simps(1))
next
  case (2 current code nodes huffman_codes)
  obtain s f l r where cur: "current = Node s f l r" by (cases current)
  from "2.prems" have tree: "huffman_tree current"
    and rest: "list_all (\<lambda>p. huffman_tree (fst p)) nodes"
    by simp_all
  show ?case
  proof (cases l)
    case None
    with tree cur have r: "r = None" by (simp split: option.splits)
    let ?codes = "if s \<noteq> 0 then huffman_codes @ [(s, code)] else huffman_codes"
    have sym: "symbol current = s" using cur by simp
    from "2.IH" [OF refl refl] rest
    have "mset (traverse nodes ?codes)
            = mset ?codes + filter_mset (\<lambda>e. fst e \<noteq> 0) (mset (pending nodes))"
      unfolding sym by (simp add: cur None r)
    moreover have "traverse ((current, code) # nodes) huffman_codes = traverse nodes ?codes"
      using cur None r by (subst traverse.simps(2)) simp
    ultimately show ?thesis using cur None r by (cases "s = 0") (simp_all add: pending_Cons)
  next
    case (Some a)
    with tree cur obtain b where r: "r = Some b" and s: "s = 0"
      and ta: "huffman_tree a" and tb: "huffman_tree b"
      by (auto split: option.splits)
    from "2.IH" [OF refl refl] rest cur Some r s ta tb
    have "mset (traverse ((b, code @ ''1'') # (a, code @ ''0'') # nodes) huffman_codes)
            = mset huffman_codes
              + filter_mset (\<lambda>e. fst e \<noteq> 0)
                  (mset (pending ((b, code @ ''1'') # (a, code @ ''0'') # nodes)))"
      by simp
    moreover have "traverse ((current, code) # nodes) huffman_codes
            = traverse ((b, code @ ''1'') # (a, code @ ''0'') # nodes) huffman_codes"
      using cur Some r s by (subst traverse.simps(2)) simp
    ultimately show ?thesis using cur Some r by (simp add: pending_Cons comp_def)
  qed
qed

lemma generate_huffman_codes_filter:
  "huffman_tree tree \<Longrightarrow>
   mset (generate_huffman_codes tree) = filter_mset (\<lambda>e. fst e \<noteq> 0) (mset (leaf_codes tree))"
  using traverse_mset [of "[(tree, [])]" "[]"]
  by (simp add: generate_huffman_codes_def pending_def)

lemma generate_huffman_codes_mset:
  "huffman_tree tree \<Longrightarrow> named_leaves tree \<Longrightarrow>
   mset (generate_huffman_codes tree) = mset (leaf_codes tree)"
  by (simp add: generate_huffman_codes_filter named_leaves_def list_all_iff
        filter_mset_eq_conv)

lemma generate_huffman_codes_sorted: "sorted (map code_key (generate_huffman_codes tree))"
  by (simp add: generate_huffman_codes_def)

lemma code_less_key: "code_less l r \<longleftrightarrow> code_key l < code_key r"
  by (auto simp: code_less_def code_key_def)

lemma sorted_code_key:
  "sorted (map code_key xs) \<Longrightarrow>
   sorted_wrt (\<lambda>l r. length (snd l) < length (snd r)
                 \<or> length (snd l) = length (snd r) \<and> sint (fst l) \<le> sint (fst r)) xs"
proof -
  assume "sorted (map code_key xs)"
  then have "sorted_wrt (\<lambda>l r. code_key l \<le> code_key r) xs"
    by (simp add: sorted_map)
  then show ?thesis
    by (rule sorted_wrt_mono_rel [rotated]) (auto simp: code_key_def less_eq_prod_def)
qed

text \<open>
  C8 (as the code has it). For every tree as \<open>build_huffman_tree\<close> builds them none of
  whose leaves carries the symbol \<open>\0\<close>, \<open>generate_huffman_codes\<close> returns a list with
  exactly one entry per leaf, the symbol of the leaf with the path from the root to it
  (\<open>0\<close> for a left edge, \<open>1\<close> for a right edge, hence as long as the leaf is deep); the
  list is sorted by code length ascending and, within equal length, by symbol value
  ascending, and no entry of the list is less than an earlier one by the comparison
  handed to \<open>std::sort\<close>.
\<close>

theorem generate_huffman_codes_leaves:
  assumes "huffman_tree tree" and "named_leaves tree"
  shows "mset (generate_huffman_codes tree) = mset (leaf_codes tree)
    \<and> sorted_wrt (\<lambda>l r. length (snd l) < length (snd r)
                     \<or> length (snd l) = length (snd r) \<and> sint (fst l) \<le> sint (fst r))
        (generate_huffman_codes tree)
    \<and> sorted_wrt (\<lambda>l r. \<not> code_less r l) (generate_huffman_codes tree)"
proof -
  have "sorted_wrt (\<lambda>l r. code_key l \<le> code_key r) (generate_huffman_codes tree)"
    using generate_huffman_codes_sorted [of tree] by (simp add: sorted_map)
  then have "sorted_wrt (\<lambda>l r. \<not> code_less r l) (generate_huffman_codes tree)"
    by (rule sorted_wrt_mono_rel [rotated]) (simp add: code_less_key not_less)
  with generate_huffman_codes_mset [OF assms]
    sorted_code_key [OF generate_huffman_codes_sorted [of tree]]
  show ?thesis by simp
qed

lemma example_tree_shape: "huffman_tree example_tree \<and> named_leaves example_tree"
  by (simp add: example_tree_def parent_of_def named_leaves_def)

lemma example_tree_leaves:
  "leaf_codes example_tree = [(97, ''00''), (98, ''01''), (10, ''10''), (26, ''11'')]"
  by (simp add: example_tree_def parent_of_def)

theorem generate_huffman_codes_leaves_witness:
  "huffman_tree example_tree \<and> named_leaves example_tree
   \<and> mset (generate_huffman_codes example_tree)
       = mset [(97, ''00''), (98, ''01''), (10, ''10''), (26, ''11'')]"
  using generate_huffman_codes_leaves [of example_tree] example_tree_shape
  unfolding example_tree_leaves by simp

text \<open>
  The claim as the specification words it covers every tree. The tree of the table
  with 5 occurrences of the symbol \<open>\0\<close> and 3 of the letter \<open>a\<close> has two leaves, and
  the list has one entry: the leaf of \<open>\0\<close> is taken for an inner node.
\<close>

theorem generate_huffman_codes_counterexample:
  "huffman_tree (parent_of (Node 97 3 None None) (Node 0 5 None None))
   \<and> leaf_codes (parent_of (Node 97 3 None None) (Node 0 5 None None))
       = [(97, ''0''), (0, ''1'')]
   \<and> generate_huffman_codes (parent_of (Node 97 3 None None) (Node 0 5 None None))
       = [(97, ''0'')]"
  by (simp add: parent_of_def generate_huffman_codes_def traverse.simps)

lemma example_tree_codes:
  "generate_huffman_codes example_tree = [(10, ''10''), (26, ''11''), (97, ''00''), (98, ''01'')]"
  by (simp add: example_tree_def parent_of_def generate_huffman_codes_def traverse.simps
                code_key_def less_eq_prod_def)

subsection \<open>Depth assignments and the exchange of the two lightest weights\<close>

lemma cost_add [simp]: "cost (P + Q) = cost P + cost Q"
  by (simp add: cost_def)

lemma cost_empty [simp]: "cost {#} = 0"
  by (simp add: cost_def)

lemma cost_single [simp]: "cost {#p#} = fst p * snd p"
  by (simp add: cost_def)

lemma cost_add_mset [simp]: "cost (add_mset p P) = fst p * snd p + cost P"
  by (simp add: cost_def)

lemma ksum_add_mset [simp]: "ksum H (add_mset d D) = 2 ^ (H - d) + ksum H D"
  by (simp add: ksum_def)

lemma ksum_empty [simp]: "ksum H {#} = 0"
  by (simp add: ksum_def)

lemma swap_cost:
  fixes w1 w2 d1 d2 :: nat
  assumes "w1 \<le> w2" and "d1 \<le> d2"
  shows "w1 * d2 + w2 * d1 \<le> w1 * d1 + w2 * d2"
proof -
  obtain x where x: "w2 = w1 + x" using assms(1) le_Suc_ex by blast
  obtain y where y: "d2 = d1 + y" using assms(2) le_Suc_ex by blast
  show ?thesis unfolding x y by (simp add: algebra_simps)
qed

lemma ksum_dvd:
  assumes "\<forall>d \<in># D. d < m" and "m \<le> H"
  shows "2 ^ (H - m + 1) dvd ksum H D"
  using assms(1)
proof (induction D)
  case empty
  then show ?case by simp
next
  case (add d D)
  then have "d < m" by simp
  with assms(2) have "H - m + 1 \<le> H - d" by simp
  then have "(2::nat) ^ (H - m + 1) dvd 2 ^ (H - d)" by (rule le_imp_power_dvd)
  with add show ?case by simp
qed

lemma ksum_all_zero:
  assumes "\<forall>d \<in># D. d = 0"
  shows "ksum H D = size D * 2 ^ H"
  using assms by (induction D) auto

lemma deepest_pair:
  assumes "kraft D" and "2 \<le> size D"
  shows "\<exists>m E. D = add_mset m (add_mset m E) \<and> 1 \<le> m \<and> (\<forall>d \<in># D. d \<le> m)"
proof -
  from assms(2) have ne: "D \<noteq> {#}" by auto
  define m where "m = Max (set_mset D)"
  have m_in: "m \<in># D" unfolding m_def using ne by (intro Max_in) auto
  have m_max: "\<forall>d \<in># D. d \<le> m" unfolding m_def by simp
  from assms(1) obtain H where H: "\<forall>d \<in># D. d \<le> H" and sum: "ksum H D = 2 ^ H"
    unfolding kraft_def by blast
  from m_in H have mH: "m \<le> H" by blast
  have m_pos: "1 \<le> m"
  proof (rule ccontr)
    assume "\<not> 1 \<le> m"
    with m_max have "\<forall>d \<in># D. d = 0" by auto
    from ksum_all_zero [OF this, of H] sum have "size D = 1" by simp
    with assms(2) show False by simp
  qed
  from m_in obtain D1 where D1: "D = add_mset m D1" by (meson mset_add)
  have "m \<in># D1"
  proof (rule ccontr)
    assume "m \<notin># D1"
    with m_max D1 have "\<forall>d \<in># D1. d < m"
      by (metis insert_iff le_neq_implies_less set_mset_add_mset_insert)
    from ksum_dvd [OF this mH] have d1: "2 ^ (H - m + 1) dvd ksum H D1" .
    from mH m_pos have "H - m + 1 \<le> H" by simp
    then have d2: "(2::nat) ^ (H - m + 1) dvd 2 ^ H" by (rule le_imp_power_dvd)
    from sum D1 have "2 ^ (H - m) + ksum H D1 = 2 ^ H" by simp
    with d1 d2 have "(2::nat) ^ (H - m + 1) dvd 2 ^ (H - m)"
      by (metis dvd_add_left_iff)
    then have "H - m + 1 \<le> H - m"
      by (simp add: power_dvd_imp_le)
    then show False by simp
  qed
  then obtain E where "D1 = add_mset m E" by (meson mset_add)
  with D1 m_pos m_max show ?thesis by blast
qed


lemma raise_lightest:
  assumes "(a, da) \<in># P" and "\<forall>p \<in># P. a \<le> fst p"
    and "(x, m) \<in># P" and "\<forall>p \<in># P. snd p \<le> m"
  shows "\<exists>P'. image_mset fst P' = image_mset fst P \<and> image_mset snd P' = image_mset snd P
              \<and> cost P' \<le> cost P \<and> (a, m) \<in># P'"
proof (cases "da = m")
  case True
  with assms(1) show ?thesis by blast
next
  case False
  from assms(1) obtain P1 where P1: "P = add_mset (a, da) P1" by (meson mset_add)
  with assms(3) False have "(x, m) \<in># P1" by auto
  then obtain R where R: "P1 = add_mset (x, m) R" by (meson mset_add)
  from assms(2,3) have ax: "a \<le> x" by force
  from assms(1,4) have dm: "da \<le> m" by force
  let ?P' = "add_mset (a, m) (add_mset (x, da) R)"
  have "cost ?P' \<le> cost P"
    using swap_cost [OF ax dm] by (simp add: P1 R)
  moreover have "image_mset fst ?P' = image_mset fst P" "image_mset snd ?P' = image_mset snd P"
    by (simp_all add: P1 R)
  ultimately show ?thesis by (intro exI [of _ ?P']) simp
qed

lemma kraft_merge:
  assumes "kraft (add_mset m (add_mset m D))" and "1 \<le> m"
  shows "kraft (add_mset (m - 1) D)"
proof -
  from assms(1) obtain H where H: "\<forall>d \<in># add_mset m (add_mset m D). d \<le> H"
    and sum: "ksum H (add_mset m (add_mset m D)) = 2 ^ H"
    unfolding kraft_def by blast
  from H have mH: "m \<le> H" by simp
  with assms(2) have "H - (m - 1) = Suc (H - m)" by simp
  then have "(2::nat) ^ (H - (m - 1)) = 2 ^ (H - m) + 2 ^ (H - m)" by simp
  with sum have "ksum H (add_mset (m - 1) D) = 2 ^ H" by simp
  moreover from H mH have "\<forall>d \<in># add_mset (m - 1) D. d \<le> H" by auto
  ultimately show ?thesis unfolding kraft_def by blast
qed

lemma exchange:
  assumes kr: "kraft (image_mset snd P)" and size: "2 \<le> size P"
    and a: "a \<in># image_mset fst P" and a_min: "\<forall>w \<in># image_mset fst P. a \<le> w"
    and b: "b \<in># image_mset fst P - {#a#}"
    and b_min: "\<forall>w \<in># image_mset fst P - {#a#}. b \<le> w"
  shows "\<exists>P'. kraft (image_mset snd P')
              \<and> image_mset fst P' = add_mset (a + b) (image_mset fst P - {#a#} - {#b#})
              \<and> cost P' + a + b \<le> cost P"
proof -
  have "2 \<le> size (image_mset snd P)" using size by simp
  from deepest_pair [OF kr this] obtain m E where
    dps: "image_mset snd P = add_mset m (add_mset m E)" and m_pos: "1 \<le> m"
    and m_max: "\<forall>d \<in># image_mset snd P. d \<le> m"
    by blast
  from a obtain da where da: "(a, da) \<in># P" by auto
  from dps have "m \<in># image_mset snd P" by simp
  then obtain x where x: "(x, m) \<in># P" by auto
  from a_min have a_min': "\<forall>p \<in># P. a \<le> fst p" by auto
  from m_max have m_max': "\<forall>p \<in># P. snd p \<le> m" by auto
  from raise_lightest [OF da a_min' x m_max'] obtain P1 where
    w1: "image_mset fst P1 = image_mset fst P" and d1: "image_mset snd P1 = image_mset snd P"
    and c1: "cost P1 \<le> cost P" and in1: "(a, m) \<in># P1"
    by blast
  from in1 obtain Q1 where Q1: "P1 = add_mset (a, m) Q1" by (meson mset_add)
  have wQ1: "image_mset fst Q1 = image_mset fst P - {#a#}"
    using w1 [symmetric] by (simp add: Q1)
  have dQ1: "image_mset snd Q1 = add_mset m E"
    using d1 dps by (simp add: Q1)
  from b wQ1 have "b \<in># image_mset fst Q1" by simp
  then obtain db where db: "(b, db) \<in># Q1" by auto
  from dQ1 have "m \<in># image_mset snd Q1" by simp
  then obtain z where z: "(z, m) \<in># Q1" by auto
  have b_min': "\<forall>p \<in># Q1. b \<le> fst p"
  proof
    fix p assume "p \<in># Q1"
    then have "fst p \<in># image_mset fst Q1" by simp
    with wQ1 have "fst p \<in># image_mset fst P - {#a#}" by simp
    with b_min show "b \<le> fst p" by blast
  qed
  have m_max1: "\<forall>p \<in># Q1. snd p \<le> m"
  proof
    fix p assume "p \<in># Q1"
    then have "snd p \<in># image_mset snd P1" by (simp add: Q1)
    with d1 have "snd p \<in># image_mset snd P" by simp
    with m_max show "snd p \<le> m" by blast
  qed
  from raise_lightest [OF db b_min' z m_max1] obtain Q2 where
    w2: "image_mset fst Q2 = image_mset fst Q1" and d2: "image_mset snd Q2 = image_mset snd Q1"
    and c2: "cost Q2 \<le> cost Q1" and in2: "(b, m) \<in># Q2"
    by blast
  from in2 obtain R where R: "Q2 = add_mset (b, m) R" by (meson mset_add)
  let ?P' = "add_mset (a + b, m - 1) R"
  have "add_mset b (image_mset fst R) = image_mset fst P - {#a#}"
    using w2 wQ1 by (simp add: R)
  then have "add_mset b (image_mset fst R) - {#b#} = image_mset fst P - {#a#} - {#b#}"
    by (rule arg_cong)
  then have wR: "image_mset fst R = image_mset fst P - {#a#} - {#b#}"
    by (simp del: diff_diff_add_mset)
  have dR: "add_mset m (add_mset m (image_mset snd R)) = image_mset snd P"
    using d2 dQ1 dps by (simp add: R)
  have "kraft (add_mset (m - 1) (image_mset snd R))"
    using kr m_pos unfolding dR [symmetric] by (rule kraft_merge)
  then have k: "kraft (image_mset snd ?P')" by simp
  have "(a + b) * (m - 1) + a + b = a * m + b * m"
    using m_pos by (cases m) (simp_all add: algebra_simps)
  then have "cost ?P' + a + b = a * m + cost Q2" by (simp add: R)
  also have "\<dots> \<le> a * m + cost Q1" using c2 by simp
  also have "\<dots> = cost P1" by (simp add: Q1)
  also have "\<dots> \<le> cost P" by (rule c1)
  finally have c: "cost ?P' + a + b \<le> cost P" .
  from k wR c show ?thesis by (intro exI [of _ ?P']) simp
qed

subsection \<open>Trees, their leaves and their depths\<close>

lemma strict_binary_cases:
  assumes "strict_binary t"
  obtains (leaf) s f where "t = Node s f None None"
    | (inner) s f a b where "t = Node s f (Some a) (Some b)" "strict_binary a" "strict_binary b"
  using assms by (cases t) (auto split: option.splits)

lemma huffman_tree_strict: "huffman_tree t \<Longrightarrow> strict_binary t"
  by (induction t rule: huffman_tree.induct) (auto split: option.splits)

lemma depths_shift:
  "depths (d + k) t = image_mset (\<lambda>p. (fst p, snd p + k)) (depths d t)"
proof (induction d t rule: depths.induct)
  case (1 d s f l r)
  show ?case
  proof (cases "l = None \<and> r = None")
    case True
    then show ?thesis by simp
  next
    case False
    have "(case l of None \<Rightarrow> {#} | Some a \<Rightarrow> depths (Suc (d + k)) a)
        = image_mset (\<lambda>p. (fst p, snd p + k)) (case l of None \<Rightarrow> {#} | Some a \<Rightarrow> depths (Suc d) a)"
      using "1.IH"(1) [OF False] by (cases l) simp_all
    moreover have "(case r of None \<Rightarrow> {#} | Some b \<Rightarrow> depths (Suc (d + k)) b)
        = image_mset (\<lambda>p. (fst p, snd p + k)) (case r of None \<Rightarrow> {#} | Some b \<Rightarrow> depths (Suc d) b)"
      using "1.IH"(2) [OF False] by (cases r) simp_all
    ultimately show ?thesis using False by simp
  qed
qed

lemma weights_depths: "sum_mset (image_mset fst (depths d t)) = leafsum t"
  by (induction d t rule: depths.induct) (auto split: option.splits)

lemma cost_shift: "cost (image_mset (\<lambda>p. (fst p, snd p + k)) P) = cost P + k * sum_mset (image_mset fst P)"
  by (induction P) (simp_all add: algebra_simps)

lemma cost_depths_Suc: "cost (depths (Suc d) t) = cost (depths d t) + leafsum t"
  using depths_shift [of d 1 t] cost_shift [of 1 "depths d t"] by (simp add: weights_depths)

lemma weighted_path_length_parent:
  "weighted_path_length (parent_of x y)
     = weighted_path_length x + weighted_path_length y + leafsum x + leafsum y"
  by (simp add: weighted_path_length_def parent_of_def cost_depths_Suc)

lemma leafsum_parent: "leafsum (parent_of x y) = leafsum x + leafsum y"
  by (simp add: parent_of_def)

lemma depths_bound: "\<forall>p \<in># depths d t. snd p \<le> d + height t"
proof (induction d t rule: depths.induct)
  case (1 d s f l r)
  show ?case
  proof (cases "l = None \<and> r = None")
    case True
    then show ?thesis by simp
  next
    case False
    show ?thesis
    proof
      fix p assume p: "p \<in># depths d (Node s f l r)"
      with False consider a where "l = Some a" "p \<in># depths (Suc d) a"
        | b where "r = Some b" "p \<in># depths (Suc d) b"
        by (auto split: option.splits)
      then show "snd p \<le> d + height (Node s f l r)"
      proof cases
        case 1
        with "1.IH"(1) [OF False] have "snd p \<le> Suc d + height a" by simp
        with 1 show ?thesis by (simp add: max_def)
      next
        case 2
        with "1.IH"(2) [OF False] have "snd p \<le> Suc d + height b" by simp
        with 2 False show ?thesis by (simp add: max_def)
      qed
    qed
  qed
qed

lemma ksum_depths:
  "strict_binary t \<Longrightarrow> d + height t \<le> H \<Longrightarrow>
   ksum H (image_mset snd (depths d t)) = 2 ^ (H - d)"
proof (induction t arbitrary: d rule: strict_binary.induct)
  case (1 s f l r)
  from "1.prems"(1) show ?case
  proof (cases rule: strict_binary_cases)
    case (leaf s' f')
    then show ?thesis by simp
  next
    case (inner s' f' a b)
    then have lr: "l = Some a" "r = Some b" by simp_all
    from "1.prems"(2) lr have ha: "Suc d + height a \<le> H" and hb: "Suc d + height b \<le> H"
      by simp_all
    from "1.IH"(1) [OF refl lr(1) lr(2) inner(2) ha]
         "1.IH"(2) [OF refl lr(1) lr(2) inner(3) hb]
    have "ksum H (image_mset snd (depths d (Node s f l r))) = 2 ^ (H - Suc d) + 2 ^ (H - Suc d)"
      by (simp add: lr ksum_def)
    moreover from ha have "H - d = Suc (H - Suc d)" by simp
    ultimately show ?thesis by simp
  qed
qed

lemma kraft_depths: "strict_binary t \<Longrightarrow> kraft (image_mset snd (depths 0 t))"
  unfolding kraft_def
  using ksum_depths [of t 0 "height t"] depths_bound [of 0 t]
  by (intro exI [of _ "height t"]) auto

lemma weights_leaves:
  "image_mset fst (depths d t) = image_mset (\<lambda>e. unat (snd e)) (mset (leaves t))"
  by (induction d t rule: depths.induct) (auto split: option.splits)

subsection \<open>The loop of \<open>build_huffman_tree\<close>\<close>

lemma is_top_member: "is_top nodes n \<Longrightarrow> n \<in> set nodes"
  by (simp add: is_top_def)

lemma is_top_least: "is_top nodes n \<Longrightarrow> m \<in> set nodes \<Longrightarrow> frequency n \<le> frequency m"
  by (simp add: is_top_def list_all_iff)

lemma merge_msets:
  assumes "is_top nodes first" and "is_top (remove1 first nodes) second"
  obtains R where "mset nodes = add_mset first (add_mset second R)"
    and "mset (parent_of first second # remove1 second (remove1 first nodes))
           = add_mset (parent_of first second) R"
proof -
  from assms have a: "first \<in> set nodes" and b: "second \<in> set (remove1 first nodes)"
    by (simp_all add: is_top_member)
  let ?M = "mset nodes - {#first#}"
  from b have "second \<in># mset (remove1 first nodes)" by (simp only: set_mset_mset)
  then have "second \<in># ?M" by (simp only: mset_remove1)
  then have m1: "add_mset second (?M - {#second#}) = ?M" by (rule insert_DiffM)
  from a have "first \<in># mset nodes" by simp
  then have m2: "add_mset first ?M = mset nodes" by (rule insert_DiffM)
  have "mset nodes = add_mset first (add_mset second (?M - {#second#}))"
    unfolding m1 m2 ..
  moreover have "mset (parent_of first second # remove1 second (remove1 first nodes))
      = add_mset (parent_of first second) (?M - {#second#})"
    by (simp only: mset.simps mset_remove1)
  ultimately show ?thesis by (rule that)
qed

lemma huffman_loop_structure:
  "huffman_loop nodes root \<Longrightarrow> \<forall>n \<in> set nodes. huffman_tree n \<and> sums_ok n \<Longrightarrow>
   huffman_tree root \<and> sums_ok root
   \<and> mset (leaves root) = (\<Sum>n \<in># mset nodes. mset (leaves n))
   \<and> frequency root = (\<Sum>n \<in># mset nodes. frequency n)"
proof (induction rule: huffman_loop.induct)
  case (finished root)
  then show ?case by simp
next
  case (merge nodes first second root)
  from merge_msets [OF merge.hyps(2,3)] obtain R where
    R: "mset nodes = add_mset first (add_mset second R)"
    and R': "mset (parent_of first second # remove1 second (remove1 first nodes))
           = add_mset (parent_of first second) R"
    by blast
  have set_eq: "set nodes = insert first (insert second (set_mset R))"
    using R by (metis set_mset_add_mset_insert set_mset_mset)
  have set_eq': "set (parent_of first second # remove1 second (remove1 first nodes))
      = insert (parent_of first second) (set_mset R)"
    using R' by (metis set_mset_add_mset_insert set_mset_mset)
  have "\<forall>n \<in> set (parent_of first second # remove1 second (remove1 first nodes)).
          huffman_tree n \<and> sums_ok n"
    unfolding set_eq' using merge.prems unfolding set_eq
    by (auto simp: parent_of_def)
  from merge.IH [OF this] show ?case
    unfolding R R' by (simp add: parent_of_def)
qed

lemma huffman_loop_optimal:
  "huffman_loop nodes root \<Longrightarrow>
   \<forall>n \<in> set nodes. unat (frequency n) = leafsum n \<Longrightarrow>
   (\<Sum>n \<in># mset nodes. leafsum n) < 2 ^ 32 \<Longrightarrow>
   kraft (image_mset snd P) \<Longrightarrow>
   image_mset fst P = image_mset leafsum (mset nodes) \<Longrightarrow>
   weighted_path_length root \<le> (\<Sum>n \<in># mset nodes. weighted_path_length n) + cost P"
proof (induction arbitrary: P rule: huffman_loop.induct)
  case (finished root)
  then show ?case by simp
next
  case (merge nodes first second root)
  from merge_msets [OF merge.hyps(2,3)] obtain R where
    R: "mset nodes = add_mset first (add_mset second R)"
    and R': "mset (parent_of first second # remove1 second (remove1 first nodes))
           = add_mset (parent_of first second) R"
    by blast
  have set_eq: "set nodes = insert first (insert second (set_mset R))"
    using R by (metis set_mset_add_mset_insert set_mset_mset)
  have set_eq': "set (parent_of first second # remove1 second (remove1 first nodes))
      = insert (parent_of first second) (set_mset R)"
    using R' by (metis set_mset_add_mset_insert set_mset_mset)
  have set1: "set (remove1 first nodes) = insert second (set_mset R)"
  proof -
    have "mset (remove1 first nodes) = add_mset second R" using R by simp
    then show ?thesis by (metis set_mset_add_mset_insert set_mset_mset)
  qed
  let ?a = "leafsum first" and ?b = "leafsum second"
  from merge.prems(1) have consistent: "\<And>n. n \<in> set nodes \<Longrightarrow> unat (frequency n) = leafsum n"
    by blast
  have le_a: "?a \<le> leafsum m" if "m \<in> set nodes" for m
  proof -
    from is_top_least [OF merge.hyps(2) that] have "unat (frequency first) \<le> unat (frequency m)"
      by (simp add: word_le_nat_alt)
    with consistent [OF that] consistent [of first] set_eq show ?thesis by simp
  qed
  have le_b: "?b \<le> leafsum m" if "m \<in> set (remove1 first nodes)" for m
  proof -
    from is_top_least [OF merge.hyps(3) that] have "unat (frequency second) \<le> unat (frequency m)"
      by (simp add: word_le_nat_alt)
    moreover from that set1 set_eq have "m \<in> set nodes" by auto
    ultimately show ?thesis using consistent [of m] consistent [of second] set_eq by simp
  qed
  have wts: "image_mset fst P = add_mset ?a (add_mset ?b (image_mset leafsum R))"
    using merge.prems(4) R by simp
  have size: "2 \<le> size P"
  proof -
    have "size P = size (image_mset fst P)" by simp
    also have "\<dots> = Suc (Suc (size R))" unfolding wts by simp
    finally show ?thesis by simp
  qed
  have a_in: "?a \<in># image_mset fst P" unfolding wts by simp
  have a_min: "\<forall>w \<in># image_mset fst P. ?a \<le> w"
    unfolding merge.prems(4) using le_a by auto
  have rest: "image_mset fst P - {#?a#} = add_mset ?b (image_mset leafsum R)"
    unfolding wts by simp
  have b_in: "?b \<in># image_mset fst P - {#?a#}" unfolding rest by simp
  have b_min: "\<forall>w \<in># image_mset fst P - {#?a#}. ?b \<le> w"
    unfolding rest using le_b set1 by auto
  from exchange [OF merge.prems(3) size a_in a_min b_in b_min] obtain P' where
    k': "kraft (image_mset snd P')"
    and w': "image_mset fst P' = add_mset (?a + ?b) (image_mset fst P - {#?a#} - {#?b#})"
    and c': "cost P' + ?a + ?b \<le> cost P"
    by blast
  have total: "(\<Sum>n \<in># mset nodes. leafsum n) = ?a + ?b + (\<Sum>n \<in># R. leafsum n)"
    unfolding R by simp
  with merge.prems(2) have small: "?a + ?b < 2 ^ 32" by simp
  have freq_parent: "unat (frequency (parent_of first second)) = leafsum (parent_of first second)"
  proof -
    have "unat (frequency first + frequency second) = unat (frequency first) + unat (frequency second)"
      using small consistent [of first] consistent [of second] set_eq
      by (simp add: unat_add_lem [THEN iffD1])
    with consistent [of first] consistent [of second] set_eq show ?thesis
      by (simp add: parent_of_def)
  qed
  have p1: "\<forall>n \<in> set (parent_of first second # remove1 second (remove1 first nodes)).
              unat (frequency n) = leafsum n"
    unfolding set_eq' using freq_parent consistent set_eq by auto
  have p2: "(\<Sum>n \<in># mset (parent_of first second # remove1 second (remove1 first nodes)).
               leafsum n) < 2 ^ 32"
    unfolding R' using merge.prems(2) total by (simp add: leafsum_parent)
  have p4: "image_mset fst P'
      = image_mset leafsum (mset (parent_of first second # remove1 second (remove1 first nodes)))"
    unfolding R' w' wts by (simp add: leafsum_parent)
  from merge.IH [OF p1 p2 k' p4]
  have "weighted_path_length root
      \<le> (\<Sum>n \<in># add_mset (parent_of first second) R. weighted_path_length n) + cost P'"
    unfolding R' .
  also have "\<dots> = (\<Sum>n \<in># mset nodes. weighted_path_length n) + (cost P' + ?a + ?b)"
    unfolding R by (simp add: weighted_path_length_parent)
  also have "\<dots> \<le> (\<Sum>n \<in># mset nodes. weighted_path_length n) + cost P"
    using c' by simp
  finally show ?case .
qed

lemma exists_top: "nodes \<noteq> [] \<Longrightarrow> \<exists>n. is_top nodes n"
proof (induction nodes)
  case Nil
  then show ?case by simp
next
  case (Cons x xs)
  show ?case
  proof (cases "xs = []")
    case True
    then show ?thesis by (auto simp: is_top_def)
  next
    case False
    from Cons.IH [OF this] obtain n where n: "is_top xs n" by blast
    show ?thesis
    proof (cases "frequency x \<le> frequency n")
      case True
      have "is_top (x # xs) x"
        unfolding is_top_def using True is_top_least [OF n]
        by (auto simp: list_all_iff intro: order_trans)
      then show ?thesis ..
    next
      case False
      then have "frequency n \<le> frequency x" by simp
      with n have "is_top (x # xs) n"
        unfolding is_top_def by (auto simp: list_all_iff)
      then show ?thesis ..
    qed
  qed
qed

lemma huffman_loop_total: "nodes \<noteq> [] \<Longrightarrow> \<exists>root. huffman_loop nodes root"
proof (induction "length nodes" arbitrary: nodes rule: less_induct)
  case less
  show ?case
  proof (cases "1 < length nodes")
    case False
    with less.prems obtain n where "nodes = [n]"
      by (cases nodes) auto
    then show ?thesis by (auto intro: huffman_loop.finished)
  next
    case True
    from exists_top [OF less.prems] obtain first where first: "is_top nodes first" by blast
    from True is_top_member [OF first] have "remove1 first nodes \<noteq> []"
      by (metis One_nat_def length_remove1 less_numeral_extra(3) list.size(3) zero_less_diff)
    from exists_top [OF this] obtain second where second: "is_top (remove1 first nodes) second"
      by blast
    let ?next = "parent_of first second # remove1 second (remove1 first nodes)"
    have "length ?next < length nodes"
      using is_top_member [OF first] is_top_member [OF second] True
      by (simp add: length_remove1)
    from less.hyps [OF this] obtain root where "huffman_loop ?next root" by blast
    from huffman_loop.merge [OF True first second this] show ?thesis ..
  qed
qed

lemma leaf_nodes_Nil: "leaf_nodes frequencies = [] \<longleftrightarrow> frequencies = Map.empty"
proof -
  have "entries frequencies = [] \<longleftrightarrow> set (entries frequencies) = {}" by simp
  also have "\<dots> \<longleftrightarrow> frequencies = Map.empty"
    unfolding set_entries by (auto simp: fun_eq_iff)
  finally show ?thesis by (simp add: leaf_nodes_def)
qed

lemma leaf_nodes_shape:
  "n \<in> set (leaf_nodes frequencies) \<Longrightarrow>
   huffman_tree n \<and> sums_ok n \<and> unat (frequency n) = leafsum n \<and> weighted_path_length n = 0"
  by (auto simp: leaf_nodes_def weighted_path_length_def)

lemma leaf_nodes_sums:
  "(\<Sum>n \<in># mset (leaf_nodes frequencies). mset (leaves n)) = mset (entries frequencies)"
  "(\<Sum>n \<in># mset (leaf_nodes frequencies). frequency n) = sum_list (map snd (entries frequencies))"
  "(\<Sum>n \<in># mset (leaf_nodes frequencies). leafsum n) = total_count frequencies"
  "(\<Sum>n \<in># mset (leaf_nodes frequencies). weighted_path_length n) = 0"
  "image_mset leafsum (mset (leaf_nodes frequencies))
     = image_mset (\<lambda>e. unat (snd e)) (mset (entries frequencies))"
proof -
  have a: "(\<Sum>n \<in># mset (map (\<lambda>(s, f). Node s f None None) es). mset (leaves n)) = mset es" for es
    by (induction es) auto
  have b: "(\<Sum>n \<in># mset (map (\<lambda>(s, f). Node s f None None) es). frequency n)
             = sum_list (map snd es)" for es :: "(byte \<times> u32) list"
    by (induction es) auto
  have c: "(\<Sum>n \<in># mset (map (\<lambda>(s, f). Node s f None None) es). leafsum n)
             = (\<Sum>e \<leftarrow> es. unat (snd e))" for es
    by (induction es) auto
  have d: "(\<Sum>n \<in># mset (map (\<lambda>(s, f). Node s f None None) es). weighted_path_length n) = 0" for es
    by (induction es) (auto simp: weighted_path_length_def)
  have e: "image_mset leafsum (mset (map (\<lambda>(s, f). Node s f None None) es))
             = image_mset (\<lambda>e. unat (snd e)) (mset es)" for es
    by (induction es) auto
  show "(\<Sum>n \<in># mset (leaf_nodes frequencies). mset (leaves n)) = mset (entries frequencies)"
    "(\<Sum>n \<in># mset (leaf_nodes frequencies). frequency n) = sum_list (map snd (entries frequencies))"
    "(\<Sum>n \<in># mset (leaf_nodes frequencies). leafsum n) = total_count frequencies"
    "(\<Sum>n \<in># mset (leaf_nodes frequencies). weighted_path_length n) = 0"
    "image_mset leafsum (mset (leaf_nodes frequencies))
       = image_mset (\<lambda>e. unat (snd e)) (mset (entries frequencies))"
    unfolding leaf_nodes_def total_count_def by (rule a b c d e)+
qed

lemma build_huffman_tree_structure:
  assumes "build_huffman_tree frequencies tree"
  shows "huffman_tree tree \<and> sums_ok tree
    \<and> mset (leaves tree) = mset (entries frequencies)
    \<and> frequency tree = sum_list (map snd (entries frequencies))"
  using huffman_loop_structure [OF assms [unfolded build_huffman_tree_def]] leaf_nodes_shape
  by (simp add: leaf_nodes_sums)

lemma build_huffman_tree_least:
  assumes "build_huffman_tree frequencies tree" and "total_count frequencies < 2 ^ 32"
    and "strict_binary other" and "mset (leaves other) = mset (entries frequencies)"
  shows "weighted_path_length tree \<le> weighted_path_length other"
proof -
  have c: "\<forall>n \<in> set (leaf_nodes frequencies). unat (frequency n) = leafsum n"
    using leaf_nodes_shape by blast
  have t: "(\<Sum>n \<in># mset (leaf_nodes frequencies). leafsum n) < 2 ^ 32"
    using assms(2) by (simp only: leaf_nodes_sums(3))
  have w: "image_mset fst (depths 0 other) = image_mset leafsum (mset (leaf_nodes frequencies))"
    by (simp add: weights_leaves assms(4) leaf_nodes_sums)
  from huffman_loop_optimal [OF assms(1) [unfolded build_huffman_tree_def] c t
         kraft_depths [OF assms(3)] w]
  show ?thesis unfolding leaf_nodes_sums(4) by (simp add: weighted_path_length_def)
qed

lemma unat_sum_list: "unat (sum_list ws :: u32) = sum_list (map unat ws) mod 2 ^ 32"
proof (induction ws)
  case Nil
  then show ?case by simp
next
  case (Cons w ws)
  have "unat (w + sum_list ws) = (unat w + unat (sum_list ws)) mod 2 ^ 32"
    by (simp add: unat_word_ariths)
  also have "\<dots> = (unat w + sum_list (map unat ws)) mod 2 ^ 32"
    unfolding Cons.IH by (simp add: mod_add_right_eq)
  finally show ?case by simp
qed

text \<open>
  C7 (as the code has it). For every non-empty frequency table \<open>build_huffman_tree\<close>
  returns a tree, and every tree it can return (whichever of several lightest nodes the
  queue hands out) is a strict binary tree whose inner nodes carry the symbol \<open>\0\<close>,
  whose leaves are exactly the entries of the table, symbol and count, and in which the
  weight of every inner node is the 32-bit sum of the weights of its two children, the
  weight of the root being the 32-bit sum of all counts. When the counts add up to less
  than \<open>2 ^ 32\<close>, the weight of the root is their sum, and the weighted external path
  length of the tree is least among all strict binary trees with these leaves.
\<close>

theorem build_huffman_tree_optimal:
  assumes "frequencies \<noteq> Map.empty"
  shows "(\<exists>tree. build_huffman_tree frequencies tree)
    \<and> (\<forall>tree. build_huffman_tree frequencies tree \<longrightarrow>
          strict_binary tree \<and> huffman_tree tree
        \<and> mset (leaves tree) = mset (entries frequencies)
        \<and> sums_ok tree
        \<and> frequency tree = sum_list (map snd (entries frequencies))
        \<and> (total_count frequencies < 2 ^ 32 \<longrightarrow>
              unat (frequency tree) = total_count frequencies
            \<and> (\<forall>other. strict_binary other
                        \<and> mset (leaves other) = mset (entries frequencies) \<longrightarrow>
                  weighted_path_length tree \<le> weighted_path_length other)))"
proof -
  from assms have "leaf_nodes frequencies \<noteq> []" by (simp add: leaf_nodes_Nil)
  from huffman_loop_total [OF this] have ex: "\<exists>tree. build_huffman_tree frequencies tree"
    by (simp add: build_huffman_tree_def)
  have "strict_binary tree \<and> huffman_tree tree
        \<and> mset (leaves tree) = mset (entries frequencies)
        \<and> sums_ok tree
        \<and> frequency tree = sum_list (map snd (entries frequencies))
        \<and> (total_count frequencies < 2 ^ 32 \<longrightarrow>
              unat (frequency tree) = total_count frequencies
            \<and> (\<forall>other. strict_binary other
                        \<and> mset (leaves other) = mset (entries frequencies) \<longrightarrow>
                  weighted_path_length tree \<le> weighted_path_length other))"
    if b: "build_huffman_tree frequencies tree" for tree
  proof -
    from build_huffman_tree_structure [OF b] have s: "huffman_tree tree" "sums_ok tree"
      "mset (leaves tree) = mset (entries frequencies)"
      "frequency tree = sum_list (map snd (entries frequencies))"
      by simp_all
    have "unat (frequency tree) = total_count frequencies"
      if "total_count frequencies < 2 ^ 32"
      using that unfolding s(4) unat_sum_list total_count_def
      by (simp add: comp_def)
    with s huffman_tree_strict [OF s(1)] build_huffman_tree_least [OF b]
    show ?thesis by blast
  qed
  with ex show ?thesis by blast
qed

lemma small_entries: "entries small_table = [(97, 1), (98, 2)]"
  unfolding small_table_def by code_simp

lemma small_build: "build_huffman_tree small_table small_tree"
proof -
  have "huffman_loop [Node 97 1 None None, Node 98 2 None None] small_tree"
    by (rule huffman_loop.merge [of _ "Node 97 1 None None" "Node 98 2 None None"])
       (simp_all add: is_top_def small_tree_def huffman_loop.finished)
  then show ?thesis
    by (simp add: build_huffman_tree_def leaf_nodes_def small_entries)
qed

theorem build_huffman_tree_optimal_witness:
  "small_table \<noteq> Map.empty
   \<and> build_huffman_tree small_table small_tree
   \<and> total_count small_table < 2 ^ 32
   \<and> strict_binary swapped_tree
   \<and> mset (leaves swapped_tree) = mset (entries small_table)
   \<and> huffman_tree small_tree
   \<and> unat (frequency small_tree) = total_count small_table
   \<and> weighted_path_length small_tree \<le> weighted_path_length swapped_tree"
proof -
  have a: "small_table \<noteq> Map.empty"
    by (simp add: small_table_def fun_eq_iff) (metis option.distinct(1))
  have t: "total_count small_table < 2 ^ 32"
    by (simp add: total_count_def small_entries)
  have o: "strict_binary swapped_tree \<and> mset (leaves swapped_tree) = mset (entries small_table)"
    by (simp add: swapped_tree_def parent_of_def small_entries)
  from build_huffman_tree_optimal [OF a] small_build t o a show ?thesis
    by blast
qed

lemma heavy_entries:
  "entries heavy_table
     = [(97, 2147483648), (98, 2147483650), (99, 1), (100, 2147483653), (101, 2147483657)]"
  unfolding heavy_table_def by code_simp

lemma heavy_build: "build_huffman_tree heavy_table heavy_tree"
proof -
  let ?a = "Node 97 2147483648 None None" and ?b = "Node 98 2147483650 None None"
  let ?c = "Node 99 1 None None" and ?d = "Node 100 2147483653 None None"
  let ?e = "Node 101 2147483657 None None"
  let ?p1 = "parent_of ?c ?a"
  let ?p2 = "parent_of ?p1 ?b"
  let ?p3 = "parent_of ?p2 ?d"
  have f1: "frequency ?p1 = 2147483649" by (simp add: parent_of_def)
  have f2: "frequency ?p2 = 3" by (simp add: parent_of_def)
  have f3: "frequency ?p3 = 2147483656" by (simp add: parent_of_def)
  have n1: "?p1 \<noteq> ?b" "?p1 \<noteq> ?d" "?p1 \<noteq> ?e" "?p2 \<noteq> ?d" "?p2 \<noteq> ?e" "?p3 \<noteq> ?e"
    by (simp_all add: parent_of_def)
  have h4: "huffman_loop [parent_of ?p3 ?e] heavy_tree"
    unfolding heavy_tree_def by (rule huffman_loop.finished)
  have h3: "huffman_loop [?p3, ?e] heavy_tree"
    by (rule huffman_loop.merge [of _ ?p3 ?e]) (simp_all add: is_top_def f3 h4)
  have h2: "huffman_loop [?p2, ?d, ?e] heavy_tree"
    by (rule huffman_loop.merge [of _ ?p2 ?d]) (simp_all add: is_top_def f2 n1 h3)
  have h1: "huffman_loop [?p1, ?b, ?d, ?e] heavy_tree"
    by (rule huffman_loop.merge [of _ ?p1 ?b]) (simp_all add: is_top_def f1 n1 h2)
  have h0: "huffman_loop [?a, ?b, ?c, ?d, ?e] heavy_tree"
    by (rule huffman_loop.merge [of _ ?c ?a]) (simp_all add: is_top_def h1)
  then show ?thesis
    by (simp add: build_huffman_tree_def leaf_nodes_def heavy_entries)
qed

text \<open>
  The claim as the specification words it has the tree of every non-empty table of least
  weighted external path length. The counts of the table below add up to more than
  \<open>2 ^ 32\<close>: the weight of the node that joins the three lightest symbols wraps around
  to 3, that node is joined next, and the tree built has a greater weighted path length
  than another tree with the same leaves.
\<close>

theorem build_huffman_tree_counterexample:
  "heavy_table \<noteq> Map.empty
   \<and> build_huffman_tree heavy_table heavy_tree
   \<and> strict_binary lighter_tree
   \<and> mset (leaves lighter_tree) = mset (entries heavy_table)
   \<and> weighted_path_length lighter_tree = 19327352867
   \<and> weighted_path_length heavy_tree = 21474836509"
proof -
  have a: "heavy_table \<noteq> Map.empty"
    by (simp add: heavy_table_def fun_eq_iff) (metis option.distinct(1))
  have b: "strict_binary lighter_tree"
    by (simp add: lighter_tree_def parent_of_def)
  have c: "mset (leaves lighter_tree) = mset (entries heavy_table)"
    by (simp add: lighter_tree_def parent_of_def heavy_entries)
  have d: "weighted_path_length lighter_tree = 19327352867"
    by (simp add: lighter_tree_def weighted_path_length_parent)
       (simp add: weighted_path_length_def parent_of_def)
  have e: "weighted_path_length heavy_tree = 21474836509"
    by (simp add: heavy_tree_def weighted_path_length_parent)
       (simp add: weighted_path_length_def parent_of_def)
  from a heavy_build b c d e show ?thesis by blast
qed

section \<open>Canonical codes are prefix-free\<close>

lemma binary_value_append:
  "binary_value (xs @ ys) = binary_value xs * 2 ^ length ys + binary_value ys"
  by (induction ys rule: rev_induct)
     (simp_all add: binary_value_snoc algebra_simps flip: append_assoc)

lemma binary_value_zeros [simp]: "binary_value (replicate n CHR ''0'') = 0"
  by (induction n) (simp_all add: binary_value_snoc replicate_append_same [symmetric])

lemma binary_value_ones:
  "list_all (\<lambda>c. c = CHR ''1'') number \<Longrightarrow> binary_value number + 1 = 2 ^ length number"
  by (induction number rule: rev_induct) (simp_all add: binary_value_snoc)

lemma prefix_interval:
  assumes "prefix c c'" and "length c' \<le> H"
  shows "low H c \<le> low H c' \<and> low H c' < high H c"
proof -
  from assms(1) obtain t where t: "c' = c @ t" by (auto simp: prefix_def)
  let ?v = "binary_value c" and ?u = "binary_value t"
  let ?k = "length t" and ?r = "H - length c'"
  from assms(2) t have H: "H - length c = ?k + ?r" by simp
  have u: "?u < 2 ^ ?k" by (rule binary_value_bound)
  have lo': "low H c' = (?v * 2 ^ ?k + ?u) * 2 ^ ?r"
    by (simp add: low_def t binary_value_append)
  have lo: "low H c = ?v * 2 ^ ?k * 2 ^ ?r"
    by (simp add: low_def H power_add)
  have hi: "high H c = (?v * 2 ^ ?k + 2 ^ ?k) * 2 ^ ?r"
    by (simp add: high_def H power_add algebra_simps)
  have "?v * 2 ^ ?k * 2 ^ ?r \<le> (?v * 2 ^ ?k + ?u) * 2 ^ ?r" by simp
  moreover have "(?v * 2 ^ ?k + ?u) * 2 ^ ?r < (?v * 2 ^ ?k + 2 ^ ?k) * 2 ^ ?r"
    using u by simp
  ultimately show ?thesis unfolding lo lo' hi by simp
qed

lemma low_less_high: "low H c < high H c"
  by (simp add: low_def high_def)

lemma disjoint_not_prefix:
  assumes "high H c \<le> low H c'" and "length c \<le> H" and "length c' \<le> H"
  shows "\<not> prefix c c' \<and> \<not> prefix c' c"
proof
  show "\<not> prefix c c'"
  proof
    assume "prefix c c'"
    from prefix_interval [OF this assms(3)] assms(1) show False by simp
  qed
  show "\<not> prefix c' c"
  proof
    assume "prefix c' c"
    from prefix_interval [OF this assms(2)] assms(1) low_less_high [of H c] show False by simp
  qed
qed

lemma ksum_pos: "D \<noteq> {#} \<Longrightarrow> 0 < ksum H D"
  by (cases D) simp_all

lemma successor_step:
  assumes bits: "list_all is_bit previous"
    and len: "length previous \<le> n" "n \<le> H"
    and room: "high H previous + 2 ^ (H - n) \<le> 2 ^ H"
  defines "code \<equiv> successor previous @ replicate (n - length (successor previous)) CHR ''0''"
  shows "length code = n \<and> low H code = high H previous
         \<and> high H code = high H previous + 2 ^ (H - n) \<and> list_all is_bit code"
proof -
  let ?p = "length previous" and ?v = "binary_value previous"
  have not_ones: "\<not> list_all (\<lambda>c. c = CHR ''1'') previous"
  proof
    assume "list_all (\<lambda>c. c = CHR ''1'') previous"
    from binary_value_ones [OF this] have "high H previous = 2 ^ ?p * 2 ^ (H - ?p)"
      by (simp add: high_def)
    also have "\<dots> = 2 ^ H" using len by (simp flip: power_add)
    finally show False using room by simp
  qed
  hence sl: "length (successor previous) = ?p" by (simp add: successor_length)
  have sv: "binary_value (successor previous) = ?v + 1" using bits by (rule successor_value)
  have l: "length code = n" using len by (simp add: code_def sl)
  have v: "binary_value code = (?v + 1) * 2 ^ (n - ?p)"
    by (simp add: code_def binary_value_append sv sl)
  have e: "H - ?p = (n - ?p) + (H - n)" using len by simp
  have lo: "low H code = high H previous"
    by (simp add: low_def high_def l v e power_add ring_distribs mult_ac)
  have hi: "high H code = high H previous + 2 ^ (H - n)"
    by (simp add: high_def l v e power_add ring_distribs mult_ac)
  have "list_all is_bit code" using bits by (simp add: code_def bits_successor)
  with l lo hi show ?thesis by simp
qed

lemma canonical_after_chain:
  assumes "list_all is_bit previous"
    and "sorted (length previous # map (\<lambda>e. length (snd e)) rest)"
    and "\<forall>e \<in> set rest. length (snd e) \<le> H"
    and "high H previous + ksum H (mset (map (\<lambda>e. length (snd e)) rest)) \<le> 2 ^ H"
  shows "(\<forall>e \<in> set (canonical_after previous rest).
            high H previous \<le> low H (snd e) \<and> length (snd e) \<le> H)
         \<and> sorted_wrt (\<lambda>a b. high H (snd a) \<le> low H (snd b)) (canonical_after previous rest)"
  using assms
proof (induction rest arbitrary: previous)
  case Nil
  show ?case by simp
next
  case (Cons e rest)
  let ?n = "length (snd e)"
  let ?code = "successor previous @ replicate (?n - length (successor previous)) CHR ''0''"
  from Cons.prems have len: "length previous \<le> ?n" "?n \<le> H" by simp_all
  from Cons.prems(4) have room: "high H previous + 2 ^ (H - ?n) \<le> 2 ^ H"
    and space: "high H previous + 2 ^ (H - ?n) + ksum H (mset (map (\<lambda>e. length (snd e)) rest)) \<le> 2 ^ H"
    by simp_all
  from successor_step [OF Cons.prems(1) len room]
  have c: "length ?code = ?n" "low H ?code = high H previous"
    "high H ?code = high H previous + 2 ^ (H - ?n)" "list_all is_bit ?code"
    by simp_all
  have "(\<forall>e \<in> set (canonical_after ?code rest).
            high H ?code \<le> low H (snd e) \<and> length (snd e) \<le> H)
         \<and> sorted_wrt (\<lambda>a b. high H (snd a) \<le> low H (snd b)) (canonical_after ?code rest)"
  proof (rule Cons.IH [OF c(4)])
    show "sorted (length ?code # map (\<lambda>e. length (snd e)) rest)"
      unfolding c(1) using Cons.prems(2) by simp
    show "\<forall>e \<in> set rest. length (snd e) \<le> H" using Cons.prems(3) by simp
    show "high H ?code + ksum H (mset (map (\<lambda>e. length (snd e)) rest)) \<le> 2 ^ H"
      using space by (simp add: c(3))
  qed
  moreover have "high H previous \<le> high H ?code" by (simp add: c(3))
  ultimately show ?case
    using c(1,2) len(2) by (auto simp: Let_def simp del: replicate_eq_replicate)
qed

lemma canonical_assignment_chain:
  assumes "sorted (map (\<lambda>e. length (snd e)) huffman_codes)"
    and "\<forall>e \<in> set huffman_codes. length (snd e) \<le> H"
    and "ksum H (mset (map (\<lambda>e. length (snd e)) huffman_codes)) \<le> 2 ^ H"
  shows "(\<forall>e \<in> set (canonical_assignment huffman_codes). length (snd e) \<le> H)
         \<and> sorted_wrt (\<lambda>a b. high H (snd a) \<le> low H (snd b))
             (canonical_assignment huffman_codes)"
proof (cases huffman_codes)
  case Nil
  thus ?thesis by (simp add: canonical_assignment_def)
next
  case (Cons e rest)
  let ?z = "replicate (length (snd e)) CHR ''0''"
  have hz: "high H ?z = 2 ^ (H - length (snd e))" by (simp add: high_def)
  have "(\<forall>e \<in> set (canonical_after ?z rest).
            high H ?z \<le> low H (snd e) \<and> length (snd e) \<le> H)
         \<and> sorted_wrt (\<lambda>a b. high H (snd a) \<le> low H (snd b)) (canonical_after ?z rest)"
  proof (rule canonical_after_chain)
    show "list_all is_bit ?z" by simp
    show "sorted (length ?z # map (\<lambda>e. length (snd e)) rest)" using assms(1) Cons by simp
    show "\<forall>e \<in> set rest. length (snd e) \<le> H" using assms(2) Cons by simp
    show "high H ?z + ksum H (mset (map (\<lambda>e. length (snd e)) rest)) \<le> 2 ^ H"
      using assms(3) Cons by (simp add: hz)
  qed
  thus ?thesis using assms(2) Cons by (auto simp: canonical_assignment_def)
qed

lemma guard_from_space:
  assumes "huffman_codes \<noteq> []"
    and "\<forall>e \<in> set huffman_codes. length (snd e) \<le> H"
    and "ksum H (mset (map (\<lambda>e. length (snd e)) huffman_codes)) \<le> 2 ^ H"
  shows "snd (hd huffman_codes) \<noteq> [] \<or> length huffman_codes = 1"
proof (cases huffman_codes)
  case Nil
  with assms(1) show ?thesis by simp
next
  case (Cons e rest)
  show ?thesis
  proof (cases "snd e = []")
    case True
    with assms(3) Cons have "ksum H (mset (map (\<lambda>e. length (snd e)) rest)) = 0" by simp
    with ksum_pos [of "mset (map (\<lambda>e. length (snd e)) rest)" H] have "rest = []"
      by (cases rest) auto
    with Cons show ?thesis by simp
  next
    case False
    with Cons show ?thesis by simp
  qed
qed

lemma sorted_wrt_either:
  "sorted_wrt P xs \<Longrightarrow> x \<in> set xs \<Longrightarrow> y \<in> set xs \<Longrightarrow> x \<noteq> y \<Longrightarrow> P x y \<or> P y x"
  by (induction xs) auto

lemma chain_prefix_free:
  assumes "\<forall>e \<in> set codes. length (snd e) \<le> H"
    and "sorted_wrt (\<lambda>a b. high H (snd a) \<le> low H (snd b)) codes"
  shows "prefix_free (map_of (rev codes))"
  unfolding prefix_free_def
proof (intro allI impI)
  fix s s' :: byte
  assume ne: "s \<noteq> s'"
  show "case (map_of (rev codes) s, map_of (rev codes) s') of
          (Some c, Some c') \<Rightarrow> \<not> prefix c c' \<and> \<not> prefix c' c
        | _ \<Rightarrow> True"
  proof (cases "map_of (rev codes) s")
    case None
    thus ?thesis by simp
  next
    case c: (Some c)
    show ?thesis
    proof (cases "map_of (rev codes) s'")
      case None
      thus ?thesis by (simp add: c)
    next
      case c': (Some c')
      from c have 1: "(s, c) \<in> set codes" by (auto dest: map_of_SomeD)
      from c' have 2: "(s', c') \<in> set codes" by (auto dest: map_of_SomeD)
      from 1 2 assms(1) have l: "length c \<le> H" "length c' \<le> H" by auto
      from sorted_wrt_either [OF assms(2) 1 2] ne
      have "high H c \<le> low H c' \<or> high H c' \<le> low H c" by auto
      with disjoint_not_prefix [of H c c'] disjoint_not_prefix [of H c' c] l
      show ?thesis by (auto simp: c c')
    qed
  qed
qed

lemma depths_leaf_codes:
  "image_mset snd (depths d t) = image_mset (\<lambda>e. d + length (snd e)) (mset (leaf_codes t))"
  by (induction d t rule: depths.induct)
     (auto split: option.splits simp: image_mset.compositionality comp_def)

lemma ksum_leaf_codes:
  assumes "strict_binary t" and "height t \<le> H"
  shows "ksum H (mset (map (\<lambda>e. length (snd e)) (leaf_codes t))) = 2 ^ H"
  using ksum_depths [of t 0 H] assms by (simp add: depths_leaf_codes)

lemma length_leaf_codes:
  assumes "e \<in> set (leaf_codes t)"
  shows "length (snd e) \<le> height t"
proof -
  from assms
  have "length (snd e) \<in># image_mset (\<lambda>e. 0 + length (snd e)) (mset (leaf_codes t))"
    by auto
  hence "length (snd e) \<in># image_mset snd (depths 0 t)" by (simp only: depths_leaf_codes)
  then obtain p where "p \<in># depths 0 t" and "snd p = length (snd e)" by auto
  with depths_bound [of 0 t] show ?thesis by auto
qed

lemma ksum_filter: "ksum H (image_mset f (filter_mset P M)) \<le> ksum H (image_mset f M)"
  by (induction M) simp_all

lemma sorted_lengths: "sorted (map code_key codes) \<Longrightarrow> sorted (map (\<lambda>e. length (snd e)) codes)"
  by (induction codes) (auto simp: code_key_def less_eq_prod_def)

lemma generate_huffman_codes_space:
  assumes "huffman_tree tree"
  shows "(\<forall>e \<in> set (generate_huffman_codes tree). length (snd e) \<le> height tree)
         \<and> ksum (height tree) (mset (map (\<lambda>e. length (snd e)) (generate_huffman_codes tree)))
             \<le> 2 ^ height tree"
proof
  have m: "mset (generate_huffman_codes tree)
             = filter_mset (\<lambda>e. fst e \<noteq> 0) (mset (leaf_codes tree))"
    using assms by (rule generate_huffman_codes_filter)
  show "\<forall>e \<in> set (generate_huffman_codes tree). length (snd e) \<le> height tree"
  proof
    fix e assume "e \<in> set (generate_huffman_codes tree)"
    hence "e \<in># mset (generate_huffman_codes tree)" by simp
    hence "e \<in> set (leaf_codes tree)" unfolding m by simp
    thus "length (snd e) \<le> height tree" by (rule length_leaf_codes)
  qed
  have "mset (map (\<lambda>e. length (snd e)) (generate_huffman_codes tree))
          = image_mset (\<lambda>e. length (snd e)) (filter_mset (\<lambda>e. fst e \<noteq> 0) (mset (leaf_codes tree)))"
    by (simp flip: m)
  hence "ksum (height tree) (mset (map (\<lambda>e. length (snd e)) (generate_huffman_codes tree)))
          \<le> ksum (height tree) (image_mset (\<lambda>e. length (snd e)) (mset (leaf_codes tree)))"
    by (simp only: ksum_filter)
  also have "\<dots> = 2 ^ height tree"
    using ksum_leaf_codes [OF huffman_tree_strict [OF assms] order_refl] by simp
  finally show "ksum (height tree) (mset (map (\<lambda>e. length (snd e)) (generate_huffman_codes tree)))
             \<le> 2 ^ height tree" .
qed

text \<open>
  C2 (as the code has it). For every tree as \<open>build_huffman_tree\<close> builds them that has
  a leaf whose symbol is not \<open>\0\<close>, so that the sorted list \<open>generate_huffman_codes\<close>
  returns for it is not empty, \<open>generate_canonical_codes\<close> returns a table for that
  list; the table holds a code for exactly the symbols of the list, and it is
  prefix-free: of two distinct symbols with codes, neither code is a prefix of the
  other.
\<close>

theorem generate_canonical_codes_prefix_free:
  assumes "huffman_tree tree" and "generate_huffman_codes tree \<noteq> []"
  shows "\<exists>code_table.
           generate_canonical_codes (generate_huffman_codes tree) = Inr code_table
           \<and> dom code_table = fst ` set (generate_huffman_codes tree)
           \<and> prefix_free code_table"
proof -
  let ?codes = "generate_huffman_codes tree" and ?H = "height tree"
  from generate_huffman_codes_space [OF assms(1)]
  have b: "\<forall>e \<in> set ?codes. length (snd e) \<le> ?H"
    and k: "ksum ?H (mset (map (\<lambda>e. length (snd e)) ?codes)) \<le> 2 ^ ?H" by simp_all
  have s: "sorted (map (\<lambda>e. length (snd e)) ?codes)"
    using generate_huffman_codes_sorted by (rule sorted_lengths)
  have r: "generate_canonical_codes ?codes = Inr (map_of (rev (canonical_assignment ?codes)))"
    using assms(2) guard_from_space [OF assms(2) b k] by (rule generate_canonical_codes_eq)
  from canonical_assignment_chain [OF s b k]
  have "prefix_free (map_of (rev (canonical_assignment ?codes)))"
    by (intro chain_prefix_free [of _ ?H]) simp_all
  moreover have "dom (map_of (rev (canonical_assignment ?codes))) = fst ` set ?codes"
    using map_fst_canonical_assignment [of ?codes]
    by (simp add: dom_map_of_conv_image_fst flip: set_map)
  ultimately show ?thesis using r by simp
qed

lemma heavy_tree_codes:
  "generate_huffman_codes heavy_tree
     = [(101, ''1''), (100, ''01''), (98, ''001''), (97, ''0001''), (99, ''0000'')]"
  by (simp add: heavy_tree_def parent_of_def generate_huffman_codes_def traverse.simps
                code_key_def less_eq_prod_def)

lemma heavy_tree_assignment:
  "canonical_assignment
     [(101, ''1''), (100, ''01''), (98, ''001''), (97, ''0001''), (99, ''0000'')]
   = [(101, ''0''), (100, ''10''), (98, ''110''), (97, ''1110''), (99, ''1111'')]"
  by (simp add: canonical_assignment_def successor_def Let_def)

lemma heavy_tree_table:
  "generate_canonical_codes
     [(101, ''1''), (100, ''01''), (98, ''001''), (97, ''0001''), (99, ''0000'')]
   = Inr [101 \<mapsto> ''0'', 100 \<mapsto> ''10'', 98 \<mapsto> ''110'', 97 \<mapsto> ''1110'', 99 \<mapsto> ''1111'']"
proof -
  have "generate_canonical_codes
          [(101, ''1''), (100, ''01''), (98, ''001''), (97, ''0001''), (99, ''0000'')]
        = Inr (map_of (rev (canonical_assignment
            [(101, ''1''), (100, ''01''), (98, ''001''), (97, ''0001''), (99, ''0000'')])))"
    by (rule generate_canonical_codes_eq) simp_all
  thus ?thesis unfolding heavy_tree_assignment by (auto simp: fun_eq_iff)
qed

theorem generate_canonical_codes_prefix_free_witness:
  "huffman_tree heavy_tree
   \<and> generate_huffman_codes heavy_tree
       = [(101, ''1''), (100, ''01''), (98, ''001''), (97, ''0001''), (99, ''0000'')]
   \<and> generate_canonical_codes (generate_huffman_codes heavy_tree)
       = Inr [101 \<mapsto> ''0'', 100 \<mapsto> ''10'', 98 \<mapsto> ''110'', 97 \<mapsto> ''1110'', 99 \<mapsto> ''1111'']
   \<and> prefix_free
         [101 \<mapsto> ''0'', 100 \<mapsto> ''10'', 98 \<mapsto> ''110'', 97 \<mapsto> ''1110'', 99 \<mapsto> ''1111'']"
proof -
  have t: "huffman_tree heavy_tree" by (simp add: heavy_tree_def parent_of_def)
  have n: "generate_huffman_codes heavy_tree \<noteq> []" by (simp add: heavy_tree_codes)
  from generate_canonical_codes_prefix_free [OF t n] t
  show ?thesis unfolding heavy_tree_codes heavy_tree_table by auto
qed

text \<open>
  The claim as the specification words it covers every tree. The tree whose one node
  is a leaf with the symbol \<open>\0\<close> yields the empty list, the leaf being taken for an
  inner node, and \<open>generate_canonical_codes\<close> reads the front element of an empty
  vector: it returns no table.
\<close>

theorem generate_canonical_codes_prefix_free_counterexample:
  "huffman_tree (Node 0 1 None None)
   \<and> generate_huffman_codes (Node 0 1 None None) = []
   \<and> generate_canonical_codes (generate_huffman_codes (Node 0 1 None None))
       = Inl UndefinedBehaviour"
  by (simp add: generate_huffman_codes_def traverse.simps generate_canonical_codes_def)

section \<open>The input \<open>ab\n\<close>\<close>
























section \<open>Decoding the output\<close>

lemma height_leaves: "strict_binary t \<Longrightarrow> height t < length (leaves t)"
proof (induction t rule: strict_binary.induct)
  case (1 s f l r)
  show ?case
  proof (cases l)
    case None
    with "1.prems" show ?thesis by (cases r) auto
  next
    case (Some a)
    with "1.prems" obtain b where r: "r = Some b" by (cases r) auto
    from "1.prems" Some r have "strict_binary a" "strict_binary b" by auto
    with "1.IH" [of l r a b] Some r
    have "height a < length (leaves a)" "height b < length (leaves b)" by auto
    with Some r show ?thesis by auto
  qed
qed

lemma length_entries: "length (entries table) \<le> 256"
proof -
  have "length (concat (map (\<lambda>s. case table s of None \<Rightarrow> [] | Some v \<Rightarrow> [(s, v)]) xs))
          \<le> length xs" for xs :: "byte list"
    by (induction xs) (auto split: option.splits)
  from this [of all_bytes] show ?thesis by (simp add: entries_def all_bytes_def)
qed

lemma symbols_leaf_codes: "map fst (leaf_codes t) = map fst (leaves t)"
  by (induction t rule: leaf_codes.induct) (auto split: option.splits simp: comp_def)

lemma inner_codes:
  assumes "huffman_tree t" and "2 \<le> length (leaves t)" and "e \<in> set (leaf_codes t)"
  shows "snd e \<noteq> []"
proof (cases t)
  case (Node s f l r)
  from assms(1) Node consider "l = None \<and> r = None" | a b where "l = Some a" "r = Some b"
    by (auto split: option.splits)
  then show ?thesis
  proof cases
    case 1
    with assms(2) Node show ?thesis by simp
  next
    case 2
    with assms(3) Node show ?thesis by auto
  qed
qed

lemma canonical_after_lengths:
  assumes "list_all is_bit previous"
    and "sorted (length previous # map (\<lambda>e. length (snd e)) rest)"
    and "\<forall>e \<in> set rest. length (snd e) \<le> H"
    and "high H previous + ksum H (mset (map (\<lambda>e. length (snd e)) rest)) \<le> 2 ^ H"
  shows "map (\<lambda>e. length (snd e)) (canonical_after previous rest)
           = map (\<lambda>e. length (snd e)) rest"
  using assms
proof (induction rest arbitrary: previous)
  case Nil
  show ?case by simp
next
  case (Cons e rest)
  let ?n = "length (snd e)"
  let ?code = "successor previous @ replicate (?n - length (successor previous)) CHR ''0''"
  from Cons.prems have len: "length previous \<le> ?n" "?n \<le> H" by simp_all
  from Cons.prems(4) have room: "high H previous + 2 ^ (H - ?n) \<le> 2 ^ H"
    and space: "high H previous + 2 ^ (H - ?n) + ksum H (mset (map (\<lambda>e. length (snd e)) rest)) \<le> 2 ^ H"
    by simp_all
  from successor_step [OF Cons.prems(1) len room]
  have c: "length ?code = ?n" "low H ?code = high H previous"
    "high H ?code = high H previous + 2 ^ (H - ?n)" "list_all is_bit ?code"
    by simp_all
  have "map (\<lambda>e. length (snd e)) (canonical_after ?code rest) = map (\<lambda>e. length (snd e)) rest"
  proof (rule Cons.IH [OF c(4)])
    show "sorted (length ?code # map (\<lambda>e. length (snd e)) rest)"
      unfolding c(1) using Cons.prems(2) by simp
    show "\<forall>e \<in> set rest. length (snd e) \<le> H" using Cons.prems(3) by simp
    show "high H ?code + ksum H (mset (map (\<lambda>e. length (snd e)) rest)) \<le> 2 ^ H"
      using space by (simp add: c(3))
  qed
  with c(1) show ?case by (simp add: Let_def del: length_append length_replicate)
qed

lemma canonical_assignment_lengths:
  assumes "sorted (map (\<lambda>e. length (snd e)) huffman_codes)"
    and "\<forall>e \<in> set huffman_codes. length (snd e) \<le> H"
    and "ksum H (mset (map (\<lambda>e. length (snd e)) huffman_codes)) \<le> 2 ^ H"
  shows "map (\<lambda>e. length (snd e)) (canonical_assignment huffman_codes)
           = map (\<lambda>e. length (snd e)) huffman_codes"
proof (cases huffman_codes)
  case Nil
  thus ?thesis by (simp add: canonical_assignment_def)
next
  case (Cons e rest)
  let ?z = "replicate (length (snd e)) CHR ''0''"
  have hz: "high H ?z = 2 ^ (H - length (snd e))" by (simp add: high_def)
  have "map (\<lambda>e. length (snd e)) (canonical_after ?z rest) = map (\<lambda>e. length (snd e)) rest"
  proof (rule canonical_after_lengths)
    show "list_all is_bit ?z" by simp
    show "sorted (length ?z # map (\<lambda>e. length (snd e)) rest)" using assms(1) Cons by simp
    show "\<forall>e \<in> set rest. length (snd e) \<le> H" using assms(2) Cons by simp
    show "high H ?z + ksum H (mset (map (\<lambda>e. length (snd e)) rest)) \<le> 2 ^ H"
      using assms(3) Cons by (simp add: hz)
  qed
  thus ?thesis using Cons by (simp add: canonical_assignment_def)
qed

lemma canonical_after_cong:
  "map (\<lambda>e. (fst e, length (snd e))) xs = map (\<lambda>e. (fst e, length (snd e))) ys \<Longrightarrow>
   canonical_after previous xs = canonical_after previous ys"
proof (induction xs arbitrary: ys previous)
  case Nil
  then show ?case by simp
next
  case (Cons x xs)
  then obtain y ys' where ys: "ys = y # ys'" by (cases ys) auto
  with Cons.prems have "fst x = fst y" "length (snd x) = length (snd y)"
    "map (\<lambda>e. (fst e, length (snd e))) xs = map (\<lambda>e. (fst e, length (snd e))) ys'" by auto
  with Cons.IH [of ys'] show ?case by (simp add: ys Let_def)
qed

lemma canonical_assignment_cong:
  assumes "map (\<lambda>e. (fst e, length (snd e))) xs = map (\<lambda>e. (fst e, length (snd e))) ys"
  shows "canonical_assignment xs = canonical_assignment ys"
proof (cases xs)
  case Nil
  with assms show ?thesis by simp
next
  case (Cons x xs')
  with assms obtain y ys' where ys: "ys = y # ys'" by (cases ys) auto
  with assms Cons have "fst x = fst y" "length (snd x) = length (snd y)"
    "map (\<lambda>e. (fst e, length (snd e))) xs' = map (\<lambda>e. (fst e, length (snd e))) ys'" by auto
  with canonical_after_cong [of xs' ys'] show ?thesis
    by (simp add: canonical_assignment_def Cons ys)
qed

lemma prefix_free_list:
  assumes "\<forall>e \<in> set codes. length (snd e) \<le> H"
    and "sorted_wrt (\<lambda>a b. high H (snd a) \<le> low H (snd b)) codes"
  shows "sorted_wrt (\<lambda>a b. \<not> prefix (snd a) (snd b) \<and> \<not> prefix (snd b) (snd a)) codes"
  using assms
proof (induction codes)
  case Nil
  show ?case by simp
next
  case (Cons a codes)
  have "\<not> prefix (snd a) (snd b) \<and> \<not> prefix (snd b) (snd a)" if "b \<in> set codes" for b
    using Cons.prems that by (intro disjoint_not_prefix [of H]) auto
  with Cons show ?case by simp
qed

lemma decode_symbol_found:
  assumes "sorted_wrt (\<lambda>a b. \<not> prefix (snd a) (snd b) \<and> \<not> prefix (snd b) (snd a)) table"
    and "(s, code) \<in> set table"
  shows "decode_symbol table (code @ rest) = Some (s, rest)"
  using assms
proof (induction table)
  case Nil
  then show ?case by simp
next
  case (Cons e table)
  show ?case
  proof (cases "e = (s, code)")
    case True
    then show ?thesis by simp
  next
    case False
    with Cons.prems have m: "(s, code) \<in> set table" by simp
    with Cons.prems(1) have n: "\<not> prefix (snd e) code" "\<not> prefix code (snd e)" by auto
    have "\<not> prefix (snd e) (code @ rest)"
    proof
      assume "prefix (snd e) (code @ rest)"
      moreover have "prefix code (code @ rest)" by simp
      ultimately have "prefix (snd e) code \<or> prefix code (snd e)"
        by (rule prefix_same_cases)
      with n show False by simp
    qed
    with Cons.IH m Cons.prems(1) show ?thesis by simp
  qed
qed

lemma decode_bits_content:
  assumes np: "sorted_wrt (\<lambda>a b. \<not> prefix (snd a) (snd b) \<and> \<not> prefix (snd b) (snd a)) table"
    and eot: "(eot, code eot) \<in> set table"
  shows "\<forall>c \<in> set cs. c \<noteq> eot \<and> (c, code c) \<in> set table \<and> code c \<noteq> [] \<Longrightarrow>
    decode_bits eot table (concat (map code (cs @ [eot])) @ padding) = Some (cs @ [eot])"
proof (induction cs)
  case Nil
  from decode_symbol_found [OF np eot, of padding] show ?case
    by (subst decode_bits.simps) simp
next
  case (Cons c cs)
  let ?rest = "concat (map code (cs @ [eot])) @ padding"
  from Cons.prems have c: "c \<noteq> eot" "(c, code c) \<in> set table" "code c \<noteq> []" by simp_all
  from decode_symbol_found [OF np c(2), of ?rest]
  have "decode_symbol table (code c @ ?rest) = Some (c, ?rest)" .
  moreover from Cons have "decode_bits eot table ?rest = Some (cs @ [eot])" by simp
  ultimately show ?case using c(1,3)
    by (subst decode_bits.simps) simp
qed


end
